theory Spec2Isabelle
  imports Main "HOL-Library.AList" "HOL-Library.Word"
begin


unbundle bit_operations_syntax

section \<open>The operating system under the explorer\<close>

text \<open>
  The explorer is a thin layer over POSIX calls. The filesystem is a finite table from
  absolute locations (the list of names from the root) to entries; the root itself is
  always a readable directory. The order of the table is the order in which
  \<^verbatim>\<open>readdir\<close> reports names. A directory carries one permission bit, whether it
  can be opened for reading; a file carries its bytes and the time of its last
  modification (the clock text of the moment a call wrote to it, truncated it or created
  it). An entry of another type (a FIFO, a device node, a socket) carries its type only:
  it has a name, \<^verbatim>\<open>stat\<close> reports it, it can be renamed and unlinked, and it
  cannot be opened. Symbolic links, write and search permissions are outside the model.
\<close>

type_synonym path = "string list"

datatype kind = Fifo | CharDev | BlockDev | Socket

datatype entry = File string string | Dir bool | Node kind

type_synonym fsys = "(path \<times> entry) list"

datatype mode = RB | WB | AB

datatype syscall =
    SysStat string
  | SysOpendir string
  | SysOpen string mode
  | SysRead path
  | SysWrite path string
  | SysRmdir string
  | SysRemove string
  | SysMkdir string
  | SysRename string string
  | SysChdir string
  | SysGetcwd

text \<open>
  The state of the process and its surroundings: the filesystem, the working directory,
  the text \<^verbatim>\<open>strftime\<close> gives for the present local time, what has been written to
  the two output streams (one list element per output statement), and a record of every
  system call made together with whether it succeeded. The byte transfers of the C
  library can fall short (a full device, a size limit, a read error): \<open>io\<close> holds
  what the environment will let through, one number of bytes for each coming call of
  \<^verbatim>\<open>fread\<close> or \<^verbatim>\<open>fwrite\<close>; once the list is used up every transfer is
  complete.
\<close>

record sys =
  fs :: fsys
  cwd :: path
  now :: string
  io :: "nat list"
  stdout :: "string list"
  stderr :: "string list"
  trace :: "(syscall \<times> bool) list"

definition emit :: "syscall \<Rightarrow> bool \<Rightarrow> sys \<Rightarrow> sys" where
  "emit c ok s = s\<lparr>trace := trace s @ [(c, ok)]\<rparr>"

definition print :: "string \<Rightarrow> sys \<Rightarrow> sys" where
  "print t s = s\<lparr>stdout := stdout s @ [t]\<rparr>"

definition perror :: "string \<Rightarrow> sys \<Rightarrow> sys" where
  "perror t s = s\<lparr>stderr := stderr s @ [t]\<rparr>"

definition nl :: string where
  "nl = [CHR 0x0A]"

subsection \<open>Locations\<close>

definition look :: "fsys \<Rightarrow> path \<Rightarrow> entry option" where
  "look f p = (if p = [] then Some (Dir True) else map_of f p)"

definition is_dir :: "fsys \<Rightarrow> path \<Rightarrow> bool" where
  "is_dir f p =
     (case look f p of
        Some (Dir r) \<Rightarrow> True | Some (File c m) \<Rightarrow> False | Some (Node k) \<Rightarrow> False | None \<Rightarrow> False)"

definition is_node :: "fsys \<Rightarrow> path \<Rightarrow> bool" where
  "is_node f p =
     (case look f p of
        Some (Node k) \<Rightarrow> True | Some (File c m) \<Rightarrow> False | Some (Dir r) \<Rightarrow> False | None \<Rightarrow> False)"

definition names_in :: "fsys \<Rightarrow> path \<Rightarrow> string list" where
  "names_in f p = map (\<lambda>qe. last (fst qe)) (filter (\<lambda>qe. fst qe \<noteq> [] \<and> butlast (fst qe) = p) f)"

definition below :: "path \<Rightarrow> path \<Rightarrow> bool" where
  "below p q = (take (length p) q = p)"

fun split_path :: "string \<Rightarrow> string list" where
  "split_path [] = [[]]"
| "split_path (c # cs) =
     (if c = CHR ''/'' then [] # split_path cs
      else (case split_path cs of [] \<Rightarrow> [[c]] | w # ws \<Rightarrow> (c # w) # ws))"

text \<open>
  Walking the components of a path text: every step is taken from a directory, an empty
  component and \<^verbatim>\<open>.\<close> stay, \<^verbatim>\<open>..\<close> goes to the parent. The last component need
  not exist; the caller looks the resulting location up.
\<close>

fun walk :: "fsys \<Rightarrow> path \<Rightarrow> string list \<Rightarrow> path option" where
  "walk f cur [] = Some cur"
| "walk f cur (c # cs) =
     (if \<not> is_dir f cur then None
      else if c = [] \<or> c = ''.'' then walk f cur cs
      else if c = ''..'' then walk f (butlast cur) cs
      else walk f (cur @ [c]) cs)"

definition resolve :: "sys \<Rightarrow> string \<Rightarrow> path option" where
  "resolve s p =
     (if p = [] then None
      else walk (fs s) (if hd p = CHR ''/'' then [] else cwd s) (split_path p))"

definition last_comp :: "string \<Rightarrow> string" where
  "last_comp p = (case rev (filter (\<lambda>c. c \<noteq> []) (split_path p)) of [] \<Rightarrow> [] | c # cs \<Rightarrow> c)"

definition dots :: "string \<Rightarrow> bool" where
  "dots p = (last_comp p = ''.'' \<or> last_comp p = ''..'')"

subsection \<open>System calls\<close>

definition stat_of :: "sys \<Rightarrow> string \<Rightarrow> entry option" where
  "stat_of s p = (case resolve s p of None \<Rightarrow> None | Some q \<Rightarrow> look (fs s) q)"

definition stat :: "string \<Rightarrow> sys \<Rightarrow> entry option \<times> sys" where
  "stat p s = (stat_of s p, emit (SysStat p) (stat_of s p \<noteq> None) s)"

definition opendir :: "string \<Rightarrow> sys \<Rightarrow> string list option \<times> sys" where
  "opendir p s =
     (case resolve s p of
        None \<Rightarrow> (None, emit (SysOpendir p) False s)
      | Some q \<Rightarrow>
          if look (fs s) q = Some (Dir True)
          then (Some (''.'' # ''..'' # names_in (fs s) q), emit (SysOpendir p) True s)
          else (None, emit (SysOpendir p) False s))"

text \<open>
  \<^verbatim>\<open>fopen\<close>: reading needs an existing entry (a readable directory opens for
  reading and then yields no bytes), writing truncates or creates a file, appending
  creates a file when there is none. Opening an existing file without truncating it
  leaves its modification time alone. The handle is the location of the entry.
\<close>

definition fopen :: "string \<Rightarrow> mode \<Rightarrow> sys \<Rightarrow> path option \<times> sys" where
  "fopen p m s =
     (case resolve s p of
        None \<Rightarrow> (None, emit (SysOpen p m) False s)
      | Some q \<Rightarrow>
          (case look (fs s) q of
             Some (Dir r) \<Rightarrow>
               if m = RB \<and> r then (Some q, emit (SysOpen p m) True s)
               else (None, emit (SysOpen p m) False s)
           | Some (Node k) \<Rightarrow> (None, emit (SysOpen p m) False s)
           | Some (File c t) \<Rightarrow>
               if m = WB
               then (Some q, emit (SysOpen p m) True
                               (s\<lparr>fs := AList.update q (File [] (now s)) (fs s)\<rparr>))
               else (Some q, emit (SysOpen p m) True s)
           | None \<Rightarrow>
               if m = RB then (None, emit (SysOpen p m) False s)
               else (Some q, emit (SysOpen p m) True
                               (s\<lparr>fs := AList.update q (File [] (now s)) (fs s)\<rparr>))))"

text \<open>
  What the environment lets through of a transfer of \<open>n\<close> bytes, and the state after
  the transfer has used its turn.
\<close>

definition allowance :: "nat \<Rightarrow> sys \<Rightarrow> nat" where
  "allowance n s = (case io s of [] \<Rightarrow> n | l # ls \<Rightarrow> min l n)"

definition used :: "sys \<Rightarrow> sys" where
  "used s = s\<lparr>io := tl (io s)\<rparr>"

text \<open>
  \<^verbatim>\<open>fread\<close> of up to \<open>n\<close> bytes at a position: the bytes delivered. The call
  counts as failed when it delivered fewer bytes than were asked for and there.
\<close>

definition fread :: "path \<Rightarrow> nat \<Rightarrow> nat \<Rightarrow> sys \<Rightarrow> string \<times> sys" where
  "fread h pos n s =
     (case look (fs s) h of
        Some (File c m) \<Rightarrow>
          (take (allowance n s) (drop pos c),
           emit (SysRead h) (take (allowance n s) (drop pos c) = take n (drop pos c)) (used s))
      | Some (Dir r) \<Rightarrow> ([], emit (SysRead h) False (used s))
      | Some (Node k) \<Rightarrow> ([], emit (SysRead h) False (used s))
      | None \<Rightarrow> ([], emit (SysRead h) False (used s)))"

text \<open>
  \<^verbatim>\<open>fwrite\<close> at the end of the file: the bytes the environment lets through are
  appended; the call counts as failed when that is not all of them.
\<close>

definition fwrite :: "path \<Rightarrow> string \<Rightarrow> sys \<Rightarrow> sys" where
  "fwrite h t s =
     (case look (fs s) h of
        Some (File c m) \<Rightarrow>
          emit (SysWrite h t) (length t \<le> allowance (length t) s)
            (if take (allowance (length t) s) t = [] then used s
             else used (s\<lparr>fs := AList.update h
                            (File (c @ take (allowance (length t) s) t) (now s)) (fs s)\<rparr>))
      | Some (Dir r) \<Rightarrow> emit (SysWrite h t) False (used s)
      | Some (Node k) \<Rightarrow> emit (SysWrite h t) False (used s)
      | None \<Rightarrow> emit (SysWrite h t) False (used s))"

text \<open>
  Insertion into a C++ output stream opened for appending, as the log uses it: the text
  goes to the end of the file. The one short line of a log record is taken to reach the
  file whenever the stream could be opened.
\<close>

definition put :: "path \<Rightarrow> string \<Rightarrow> sys \<Rightarrow> sys" where
  "put h t s =
     (case look (fs s) h of
        Some (File c m) \<Rightarrow>
          emit (SysWrite h t) True (s\<lparr>fs := AList.update h (File (c @ t) (now s)) (fs s)\<rparr>)
      | Some (Dir r) \<Rightarrow> emit (SysWrite h t) False s
      | Some (Node k) \<Rightarrow> emit (SysWrite h t) False s
      | None \<Rightarrow> emit (SysWrite h t) False s)"

definition rmdir_ok :: "sys \<Rightarrow> string \<Rightarrow> path option" where
  "rmdir_ok s p =
     (case resolve s p of
        None \<Rightarrow> None
      | Some q \<Rightarrow>
          if \<not> dots p \<and> q \<noteq> [] \<and> is_dir (fs s) q \<and> names_in (fs s) q = []
          then Some q else None)"

definition rmdir :: "string \<Rightarrow> sys \<Rightarrow> sys" where
  "rmdir p s =
     (case rmdir_ok s p of
        None \<Rightarrow> emit (SysRmdir p) False s
      | Some q \<Rightarrow> emit (SysRmdir p) True (s\<lparr>fs := AList.delete q (fs s)\<rparr>))"

text \<open>
  The C library's \<^verbatim>\<open>remove\<close>: \<^verbatim>\<open>rmdir\<close> for a directory, \<^verbatim>\<open>unlink\<close>
  for everything else.
\<close>

definition remove_ok :: "sys \<Rightarrow> string \<Rightarrow> path option" where
  "remove_ok s p =
     (case resolve s p of
        None \<Rightarrow> None
      | Some q \<Rightarrow>
          (case look (fs s) q of
             Some (File c m) \<Rightarrow> Some q
           | Some (Dir r) \<Rightarrow> rmdir_ok s p
           | Some (Node k) \<Rightarrow> Some q
           | None \<Rightarrow> None))"

definition remove :: "string \<Rightarrow> sys \<Rightarrow> sys" where
  "remove p s =
     (case remove_ok s p of
        None \<Rightarrow> emit (SysRemove p) False s
      | Some q \<Rightarrow> emit (SysRemove p) True (s\<lparr>fs := AList.delete q (fs s)\<rparr>))"

definition mkdir :: "string \<Rightarrow> sys \<Rightarrow> bool \<times> sys" where
  "mkdir p s =
     (case resolve s p of
        None \<Rightarrow> (False, emit (SysMkdir p) False s)
      | Some q \<Rightarrow>
          if look (fs s) q = None
          then (True, emit (SysMkdir p) True (s\<lparr>fs := AList.update q (Dir True) (fs s)\<rparr>))
          else (False, emit (SysMkdir p) False s))"

definition chdir :: "string \<Rightarrow> sys \<Rightarrow> bool \<times> sys" where
  "chdir p s =
     (case resolve s p of
        None \<Rightarrow> (False, emit (SysChdir p) False s)
      | Some q \<Rightarrow>
          if is_dir (fs s) q then (True, emit (SysChdir p) True (s\<lparr>cwd := q\<rparr>))
          else (False, emit (SysChdir p) False s))"

definition path_text :: "path \<Rightarrow> string" where
  "path_text p = (if p = [] then ''/'' else concat (map (\<lambda>n. CHR ''/'' # n) p))"

text \<open>
  \<^verbatim>\<open>getcwd\<close> into a buffer of 1024 bytes: it fails when the working directory has
  been removed or its text with the closing zero does not fit.
\<close>

definition getcwd :: "sys \<Rightarrow> string option \<times> sys" where
  "getcwd s =
     (if is_dir (fs s) (cwd s) \<and> length (path_text (cwd s)) < 1024
      then (Some (path_text (cwd s)), emit SysGetcwd True s)
      else (None, emit SysGetcwd False s))"

text \<open>
  \<^verbatim>\<open>rename\<close>: the source must exist; a directory cannot move into itself; an
  existing target is replaced when it is of the same kind (and empty, for a directory).
  The entry moves with everything below it, and so does the working directory.
\<close>

definition reroot :: "path \<Rightarrow> path \<Rightarrow> path \<Rightarrow> path" where
  "reroot a b p = (if below a p then b @ drop (length a) p else p)"

definition rename_ok :: "sys \<Rightarrow> string \<Rightarrow> string \<Rightarrow> (path \<times> path) option" where
  "rename_ok s a b =
     (case resolve s a of
        None \<Rightarrow> None
      | Some qa \<Rightarrow>
          (case resolve s b of
             None \<Rightarrow> None
           | Some qb \<Rightarrow>
               (case look (fs s) qa of
                  None \<Rightarrow> None
                | Some (File c m) \<Rightarrow>
                    if qa \<noteq> [] \<and> qb \<noteq> [] \<and> \<not> dots a \<and> \<not> dots b \<and> \<not> is_dir (fs s) qb
                    then Some (qa, qb) else None
                | Some (Dir r) \<Rightarrow>
                    if qa \<noteq> [] \<and> qb \<noteq> [] \<and> \<not> dots a \<and> \<not> dots b
                       \<and> (qa = qb \<or> (\<not> below qa qb
                            \<and> (look (fs s) qb = None \<or> (is_dir (fs s) qb \<and> names_in (fs s) qb = []))))
                    then Some (qa, qb) else None
                | Some (Node k) \<Rightarrow>
                    if qa \<noteq> [] \<and> qb \<noteq> [] \<and> \<not> dots a \<and> \<not> dots b \<and> \<not> is_dir (fs s) qb
                    then Some (qa, qb) else None)))"

definition rename :: "string \<Rightarrow> string \<Rightarrow> sys \<Rightarrow> bool \<times> sys" where
  "rename a b s =
     (case rename_ok s a b of
        None \<Rightarrow> (False, emit (SysRename a b) False s)
      | Some (qa, qb) \<Rightarrow>
          if qa = qb then (True, emit (SysRename a b) True s)
          else (True, emit (SysRename a b) True
                  (s\<lparr>fs := map (\<lambda>qe. (reroot qa qb (fst qe), snd qe)) (AList.delete qb (fs s)),
                     cwd := reroot qa qb (cwd s)\<rparr>)))"

section \<open>The explorer\<close>

subsection \<open>Activity log\<close>

definition log_name :: string where
  "log_name = ''activity_log.txt''"

text \<open>
  \<^verbatim>\<open>logAction\<close>: open the log for appending (the stream's \<^verbatim>\<open>ios::app\<close> is the
  mode \<^verbatim>\<open>ab\<close>), return silently when that fails, else write one line
  \<^verbatim>\<open>[time] action\<close>.
\<close>

definition logAction :: "string \<Rightarrow> sys \<Rightarrow> sys" where
  "logAction action s =
     (case fopen log_name AB s of
        (None, s1) \<Rightarrow> s1
      | (Some h, s1) \<Rightarrow> put h (''['' @ now s1 @ ''] '' @ action @ nl) s1)"

subsection \<open>Tokens\<close>

definition is_space :: "char \<Rightarrow> bool" where
  "is_space c = (c = CHR '' '' \<or> c = CHR 0x09 \<or> c = CHR 0x0A \<or> c = CHR 0x0B
                 \<or> c = CHR 0x0C \<or> c = CHR 0x0D)"

fun split_acc :: "string \<Rightarrow> string \<Rightarrow> string list" where
  "split_acc w [] = (if w = [] then [] else [w])"
| "split_acc w (c # cs) =
     (if is_space c then (if w = [] then split_acc [] cs else w # split_acc [] cs)
      else split_acc (w @ [c]) cs)"

definition splitLine :: "string \<Rightarrow> string list" where
  "splitLine line = split_acc [] line"

subsection \<open>Path utilities\<close>

text \<open>
  The file type bits of \<^verbatim>\<open>st_mode\<close> (the permission bits play no part in the test
  below), and the test of the source, \<^verbatim>\<open>st.st_mode & S_IFDIR\<close>: it looks at one
  bit, which the types of a block device and of a socket have as well.
\<close>

definition S_IFDIR :: "32 word" where
  "S_IFDIR = 16384"

definition st_mode :: "entry \<Rightarrow> 32 word" where
  "st_mode e =
     (case e of
        File c m \<Rightarrow> 32768
      | Dir r \<Rightarrow> 16384
      | Node k \<Rightarrow> (case k of Fifo \<Rightarrow> 4096 | CharDev \<Rightarrow> 8192 | BlockDev \<Rightarrow> 24576 | Socket \<Rightarrow> 49152))"

definition isDirectory :: "string \<Rightarrow> sys \<Rightarrow> bool \<times> sys" where
  "isDirectory path s =
     (case stat path s of
        (None, s1) \<Rightarrow> (False, s1)
      | (Some e, s1) \<Rightarrow> (st_mode e AND S_IFDIR \<noteq> 0, s1))"

subsection \<open>Filesystem operations\<close>

fun show_nat :: "nat \<Rightarrow> string" where
  "show_nat n =
     (if n < 10 then [''0123456789'' ! n]
      else show_nat (n div 10) @ [''0123456789'' ! (n mod 10)])"

declare show_nat.simps [simp del]

text \<open>
  The size \<^verbatim>\<open>stat\<close> reports: the length of a file; for a directory, one block;
  nothing for the other types.
\<close>

definition st_size :: "entry \<Rightarrow> nat" where
  "st_size e = (case e of File c m \<Rightarrow> length c | Dir r \<Rightarrow> 4096 | Node k \<Rightarrow> 0)"

fun list_loop :: "string \<Rightarrow> string list \<Rightarrow> sys \<Rightarrow> sys" where
  "list_loop path [] s = s"
| "list_loop path (name # rest) s =
     (if name = ''.'' \<or> name = ''..'' then list_loop path rest s
      else
        (case stat (path @ ''/'' @ name) s of
           (None, s1) \<Rightarrow> list_loop path rest s1
         | (Some e, s1) \<Rightarrow>
             (case isDirectory (path @ ''/'' @ name) s1 of
                (d, s2) \<Rightarrow>
                  list_loop path rest
                    (print (name @ [CHR 0x09] @ ''('' @ show_nat (st_size e) @ '' bytes)'' @ nl)
                       (print (if d then ''[DIR]  '' else ''       '') s2)))))"

definition listFiles :: "string \<Rightarrow> sys \<Rightarrow> sys" where
  "listFiles path s =
     (case opendir path s of
        (None, s1) \<Rightarrow> perror ''ls'' s1
      | (Some names, s1) \<Rightarrow>
          logAction (''Listed contents of: '' @ path)
            (list_loop path names (print (''Contents of '' @ path @ '':'' @ nl) s1)))"

definition changeDir :: "string \<Rightarrow> sys \<Rightarrow> sys" where
  "changeDir path s =
     (case chdir path s of
        (True, s1) \<Rightarrow>
          logAction (''Changed directory to: '' @ path)
            (print (''Changed directory to: '' @ path @ nl) s1)
      | (False, s1) \<Rightarrow> perror ''cd'' s1)"

definition printPwd :: "sys \<Rightarrow> sys" where
  "printPwd s =
     logAction ''Checked current directory.''
       (case getcwd s of
          (Some c, s1) \<Rightarrow> print (c @ nl) s1
        | (None, s1) \<Rightarrow> perror ''pwd'' s1)"

text \<open>
  The copy loop reads up to 4096 bytes at the input position and writes them at the end
  of the output, until a read yields nothing. What \<^verbatim>\<open>fwrite\<close> returns is not looked
  at. The fuel bounds the number of rounds.
\<close>

fun copy_loop :: "nat \<Rightarrow> path \<Rightarrow> nat \<Rightarrow> path \<Rightarrow> sys \<Rightarrow> sys option" where
  "copy_loop 0 inp pos out s = None"
| "copy_loop (Suc k) inp pos out s =
     (case fread inp pos 4096 s of
        (d, s1) \<Rightarrow>
          if length d > 0 then copy_loop k inp (pos + length d) out (fwrite out d s1)
          else Some s1)"

definition copyFile :: "nat \<Rightarrow> string \<Rightarrow> string \<Rightarrow> sys \<Rightarrow> (bool \<times> sys) option" where
  "copyFile fuel src dest s =
     (case fopen src RB s of
        (None, s1) \<Rightarrow> Some (False, s1)
      | (Some inp, s1) \<Rightarrow>
          (case fopen dest WB s1 of
             (None, s2) \<Rightarrow> Some (False, s2)
           | (Some out, s2) \<Rightarrow>
               (case copy_loop fuel inp 0 out s2 of
                  None \<Rightarrow> None
                | Some s3 \<Rightarrow>
                    Some (True, logAction (''Copied file: '' @ src @ '' -> '' @ dest) s3))))"

text \<open>
  Recursive delete (the POSIX branch of the source: separator \<^verbatim>\<open>/\<close>,
  \<^verbatim>\<open>rmdir\<close>). The fuel bounds the depth of the recursion; the inner function is
  the \<^verbatim>\<open>readdir\<close> loop over the names the directory held when it was opened.
\<close>

fun removeRecursive :: "nat \<Rightarrow> string \<Rightarrow> sys \<Rightarrow> sys option"
  and remove_loop :: "nat \<Rightarrow> string \<Rightarrow> string list \<Rightarrow> sys \<Rightarrow> sys option" where
  "removeRecursive 0 path s = None"
| "removeRecursive (Suc k) path s =
     (case isDirectory path s of
        (True, s1) \<Rightarrow>
          (case opendir path s1 of
             (None, s2) \<Rightarrow> Some s2
           | (Some names, s2) \<Rightarrow>
               (case remove_loop k path names s2 of
                  None \<Rightarrow> None
                | Some s3 \<Rightarrow> Some (logAction (''Removed: '' @ path) (rmdir path s3))))
      | (False, s1) \<Rightarrow> Some (logAction (''Removed: '' @ path) (remove path s1)))"
| "remove_loop k path [] s = Some s"
| "remove_loop k path (name # rest) s =
     (if name = ''.'' \<or> name = ''..'' then remove_loop k path rest s
      else
        (case removeRecursive k (path @ ''/'' @ name) s of
           None \<Rightarrow> None
         | Some s1 \<Rightarrow> remove_loop k path rest s1))"

text \<open>\<^verbatim>\<open>name.find(pattern)\<close>: the first position where the pattern occurs.\<close>

fun find_sub :: "string \<Rightarrow> string \<Rightarrow> nat option" where
  "find_sub [] pat = (if pat = [] then Some 0 else None)"
| "find_sub (c # cs) pat =
     (if take (length pat) (c # cs) = pat then Some 0 else map_option Suc (find_sub cs pat))"

fun searchFile :: "nat \<Rightarrow> string \<Rightarrow> string \<Rightarrow> sys \<Rightarrow> sys option"
  and search_loop :: "nat \<Rightarrow> string \<Rightarrow> string \<Rightarrow> string list \<Rightarrow> sys \<Rightarrow> sys option" where
  "searchFile 0 pattern path s = None"
| "searchFile (Suc k) pattern path s =
     (case opendir path s of
        (None, s1) \<Rightarrow> Some s1
      | (Some names, s1) \<Rightarrow>
          (case search_loop k pattern path names s1 of
             None \<Rightarrow> None
           | Some s2 \<Rightarrow>
               Some (logAction (''Searched for: '' @ pattern @ '' in '' @ path) s2)))"
| "search_loop k pattern path [] s = Some s"
| "search_loop k pattern path (name # rest) s =
     (if name = ''.'' \<or> name = ''..'' then search_loop k pattern path rest s
      else
        (case isDirectory (path @ ''/'' @ name)
                (if find_sub name pattern \<noteq> None then print (path @ ''/'' @ name @ nl) s else s) of
           (True, s1) \<Rightarrow>
             (case searchFile k pattern (path @ ''/'' @ name) s1 of
                None \<Rightarrow> None
              | Some s2 \<Rightarrow> search_loop k pattern path rest s2)
         | (False, s1) \<Rightarrow> search_loop k pattern path rest s1))"

definition touchFile :: "string \<Rightarrow> sys \<Rightarrow> sys" where
  "touchFile path s =
     (case fopen path AB s of
        (Some f, s1) \<Rightarrow>
          logAction (''Created or updated file: '' @ path)
            (print (''File created/updated: '' @ path @ nl) s1)
      | (None, s1) \<Rightarrow> perror ''touch'' s1)"

definition makeDir :: "string \<Rightarrow> sys \<Rightarrow> sys" where
  "makeDir path s =
     logAction (''Created directory: '' @ path)
       (case mkdir path s of
          (True, s1) \<Rightarrow> print (''Directory created: '' @ path @ nl) s1
        | (False, s1) \<Rightarrow> perror ''mkdir'' s1)"

definition moveFile :: "string \<Rightarrow> string \<Rightarrow> sys \<Rightarrow> sys" where
  "moveFile src dest s =
     (case rename src dest s of
        (True, s1) \<Rightarrow>
          logAction (''Moved/Renamed: '' @ src @ '' -> '' @ dest)
            (print (''Moved: '' @ src @ '' -> '' @ dest @ nl) s1)
      | (False, s1) \<Rightarrow> perror ''mv'' s1)"

subsection \<open>History and help\<close>

fun lines_acc :: "string \<Rightarrow> string \<Rightarrow> string list" where
  "lines_acc w [] = (if w = [] then [] else [w])"
| "lines_acc w (c # cs) =
     (if c = CHR 0x0A then w # lines_acc [] cs else lines_acc (w @ [c]) cs)"

definition contents :: "path \<Rightarrow> sys \<Rightarrow> string" where
  "contents h s =
     (case look (fs s) h of
        Some (File c m) \<Rightarrow> c | Some (Dir r) \<Rightarrow> [] | Some (Node k) \<Rightarrow> [] | None \<Rightarrow> [])"

definition showHistory :: "sys \<Rightarrow> sys" where
  "showHistory s =
     (case fopen log_name RB s of
        (None, s1) \<Rightarrow> print (''No activity history found yet.'' @ nl) s1
      | (Some h, s1) \<Rightarrow>
          print (''------------------------------------'' @ nl)
            (fold (\<lambda>line. print (line @ nl)) (lines_acc [] (contents h s1))
               (print (''----------- ACTIVITY LOG -----------'' @ nl) s1)))"

definition help_text :: "string list" where
  "help_text =
     [nl @ ''Available Commands:'' @ nl,
      ''  ls [path]        - List files and folders'' @ nl,
      ''  cd <dir>         - Change directory'' @ nl,
      ''  pwd              - Print current directory'' @ nl,
      ''  cp <src> <dest>  - Copy file'' @ nl,
      ''  mv <src> <dest>  - Move or rename file'' @ nl,
      ''  rm <path>        - Delete file/folder'' @ nl,
      ''  touch <file>     - Create empty file'' @ nl,
      ''  mkdir <dir>      - Create new folder'' @ nl,
      ''  search <name>    - Search file by name'' @ nl,
      ''  history          - Show activity log'' @ nl,
      ''  help             - Show help menu'' @ nl,
      ''  exit             - Exit explorer'' @ nl @ nl]"

definition showHelp :: "sys \<Rightarrow> sys" where
  "showHelp s = fold print help_text s"

subsection \<open>The command loop\<close>

text \<open>
  One round of the loop body after tokenising: \<open>args\<close> are the tokens of the line, the
  command first. The flag in the result says whether the loop is left.
\<close>

definition dispatch :: "nat \<Rightarrow> string list \<Rightarrow> sys \<Rightarrow> (bool \<times> sys) option" where
  "dispatch fuel args s =
     (if args = [] then Some (False, s)
      else if args ! 0 = ''exit'' \<or> args ! 0 = ''quit'' then Some (True, s)
      else if args ! 0 = ''help'' then Some (False, showHelp s)
      else if args ! 0 = ''ls'' then
        Some (False, listFiles (if length args > 1 then args ! 1 else ''.'') s)
      else if args ! 0 = ''cd'' then
        (if length args > 1 then Some (False, changeDir (args ! 1) s)
         else Some (False, print (''Usage: cd <dir>'' @ nl) s))
      else if args ! 0 = ''pwd'' then Some (False, printPwd s)
      else if args ! 0 = ''cp'' then
        (if length args > 2 then
           (case copyFile fuel (args ! 1) (args ! 2) s of
              None \<Rightarrow> None
            | Some (True, s1) \<Rightarrow>
                Some (False, print (''Copied: '' @ args ! 1 @ '' -> '' @ args ! 2 @ nl) s1)
            | Some (False, s1) \<Rightarrow> Some (False, perror ''cp'' s1))
         else Some (False, print (''Usage: cp <src> <dest>'' @ nl) s))
      else if args ! 0 = ''mv'' then
        (if length args > 2 then Some (False, moveFile (args ! 1) (args ! 2) s)
         else Some (False, print (''Usage: mv <src> <dest>'' @ nl) s))
      else if args ! 0 = ''rm'' then
        (if length args > 1 then
           (case removeRecursive fuel (args ! 1) s of
              None \<Rightarrow> None
            | Some s1 \<Rightarrow> Some (False, s1))
         else Some (False, print (''Usage: rm <path>'' @ nl) s))
      else if args ! 0 = ''touch'' then
        (if length args > 1 then Some (False, touchFile (args ! 1) s)
         else Some (False, print (''Usage: touch <file>'' @ nl) s))
      else if args ! 0 = ''mkdir'' then
        (if length args > 1 then Some (False, makeDir (args ! 1) s)
         else Some (False, print (''Usage: mkdir <dir>'' @ nl) s))
      else if args ! 0 = ''search'' then
        (if length args > 1 then
           (case searchFile fuel (args ! 1) ''.'' s of
              None \<Rightarrow> None
            | Some s1 \<Rightarrow> Some (False, s1))
         else Some (False, print (''Usage: search <pattern>'' @ nl) s))
      else if args ! 0 = ''history'' then Some (False, showHistory s)
      else Some (False, print (''Unknown command. Type 'help' for list.'' @ nl) s))"

text \<open>
  The prompt shows the working directory. The buffer is not initialised and the result
  of \<^verbatim>\<open>getcwd\<close> is not checked; where the call fails the model shows no directory.
\<close>

definition prompt :: "sys \<Rightarrow> sys" where
  "prompt s =
     (case getcwd s of
        (Some c, s1) \<Rightarrow> print (c @ '' $ '') s1
      | (None, s1) \<Rightarrow> print '' $ '' s1)"

text \<open>
  The loop over the lines of standard input; each line comes with the clock text of the
  moment it is read. The loop ends at the end of input or at an exit command.
\<close>

fun main_loop :: "nat \<Rightarrow> (string \<times> string) list \<Rightarrow> sys \<Rightarrow> sys option" where
  "main_loop fuel [] s = Some (prompt s)"
| "main_loop fuel ((t, line) # rest) s =
     (case dispatch fuel (splitLine line) (prompt (s\<lparr>now := t\<rparr>)) of
        None \<Rightarrow> None
      | Some (True, s1) \<Rightarrow> Some s1
      | Some (False, s1) \<Rightarrow> main_loop fuel rest s1)"

definition banner :: "string list" where
  "banner =
     [''---------------------------------------------'' @ nl,
      ''   SIMPLE CONSOLE FILE EXPLORER (C++ / GCC6)'' @ nl,
      ''---------------------------------------------'' @ nl,
      ''Type 'help' to see available commands.'' @ nl @ nl]"

definition main :: "nat \<Rightarrow> (string \<times> string) list \<Rightarrow> sys \<Rightarrow> sys option" where
  "main fuel input s =
     (case main_loop fuel input (fold print banner s) of
        None \<Rightarrow> None
      | Some s1 \<Rightarrow> Some (print (nl @ ''Goodbye! Have a nice day :)'' @ nl) s1))"

section \<open>Notions used in the statements\<close>


definition log_loc :: "sys \<Rightarrow> path" where
  "log_loc s = cwd s @ [log_name]"

definition log_text :: "sys \<Rightarrow> string" where
  "log_text s = contents (log_loc s) s"

definition log_ready :: "sys \<Rightarrow> bool" where
  "log_ready s =
     (is_dir (fs s) (cwd s) \<and> \<not> is_dir (fs s) (log_loc s) \<and> \<not> is_node (fs s) (log_loc s))"

definition record_line :: "sys \<Rightarrow> string \<Rightarrow> string" where
  "record_line s a = ''['' @ now s @ ''] '' @ a @ nl"


definition demo :: sys where
  "demo = \<lparr>fs = [([''home''], Dir True),
                 ([''home'', ''notes.txt''], File ''hello'' ''09:00''),
                 ([''home'', ''sub''], Dir True),
                 ([''home'', ''sub'', ''a.txt''], File ''abc'' ''09:01''),
                 ([''home'', ''sub'', ''deep''], Dir True),
                 ([''home'', ''sub'', ''deep'', ''a.txt.bak''], File [] ''09:02''),
                 ([''home'', ''locked''], Dir False),
                 ([''home'', ''locked'', ''a.txt''], File ''x'' ''09:03''),
                 ([''home'', ''activity_log.txt''],
                    File (''[09:04] Checked current directory.'' @ nl) ''09:04'')],
           cwd = [''home''], now = ''10:00'', io = [], stdout = [], stderr = [], trace = []\<rparr>"

definition size_at :: "sys \<Rightarrow> string \<Rightarrow> nat" where
  "size_at s p = (case resolve s p of None \<Rightarrow> 0 | Some q \<Rightarrow> length (contents q s))"

text \<open>
  The entries the directory test of the explorer lets pass: directories, and with them
  block devices and sockets.
\<close>

definition taken_for_dir :: "entry \<Rightarrow> bool" where
  "taken_for_dir e =
     (case e of File c m \<Rightarrow> False | Dir r \<Rightarrow> True | Node k \<Rightarrow> k = BlockDev \<or> k = Socket)"

definition dirlike :: "fsys \<Rightarrow> path \<Rightarrow> bool" where
  "dirlike f p = (case look f p of Some e \<Rightarrow> taken_for_dir e | None \<Rightarrow> False)"

text \<open>
  The byte transfers among the system calls of a run, and a run in which none of them
  fell short.
\<close>

fun transfer :: "syscall \<Rightarrow> bool" where
  "transfer (SysRead h) = True"
| "transfer (SysWrite h t) = True"
| "transfer c = False"

definition complete :: "(syscall \<times> bool) list \<Rightarrow> bool" where
  "complete tr = list_all (\<lambda>e. transfer (fst e) \<longrightarrow> snd e) tr"

text \<open>
  Names as a filesystem has them: not empty, without a separator, not one of the two
  dot entries. A table is \<open>named\<close> when every entry has such a name.
\<close>

definition valid_name :: "string \<Rightarrow> bool" where
  "valid_name n = (n \<noteq> [] \<and> CHR ''/'' \<notin> set n \<and> n \<noteq> ''.'' \<and> n \<noteq> ''..'')"

definition named :: "fsys \<Rightarrow> bool" where
  "named f = list_all (\<lambda>qe. fst qe \<noteq> [] \<and> valid_name (last (fst qe))) f"

text \<open>
  Fuel that suffices for a recursive walk: more than the depth of every entry, and of
  the log file of the current directory.
\<close>

definition fuel_ok :: "nat \<Rightarrow> sys \<Rightarrow> bool" where
  "fuel_ok k s = (list_all (\<lambda>qe. length (fst qe) < k) (fs s) \<and> length (cwd s) + 1 < k)"

text \<open>The system calls made between two states, and what they tell.\<close>

definition new_trace :: "sys \<Rightarrow> sys \<Rightarrow> (syscall \<times> bool) list" where
  "new_trace s s' = drop (length (trace s)) (trace s')"






text \<open>
  What a recursive delete can do to the surroundings: nothing becomes a directory or a
  node of another type, and nothing comes into being except the log file of the current directory.
\<close>

definition shrinks :: "sys \<Rightarrow> sys \<Rightarrow> bool" where
  "shrinks s s' =
     (cwd s' = cwd s \<and> now s' = now s
      \<and> (named (fs s) \<longrightarrow> named (fs s'))
      \<and> (\<forall>p. is_dir (fs s') p \<longrightarrow> is_dir (fs s) p)
      \<and> (\<forall>p. is_node (fs s') p \<longrightarrow> is_node (fs s) p)
      \<and> (\<forall>p. look (fs s') p \<noteq> None \<longrightarrow> look (fs s) p \<noteq> None \<or> p = log_loc s))"

definition fits :: "sys \<Rightarrow> path \<Rightarrow> nat \<Rightarrow> bool" where
  "fits s q k =
     (\<forall>p. (look (fs s) p \<noteq> None \<or> p = log_loc s) \<and> below q p \<longrightarrow> length p < length q + k)"



text \<open>
  What a search can do to the surroundings: it writes to the log file of the current
  directory and to nothing else; once that file exists, the table keeps its entries.
\<close>

definition calm :: "sys \<Rightarrow> sys \<Rightarrow> bool" where
  "calm s s' =
     (cwd s' = cwd s \<and> now s' = now s
      \<and> (named (fs s) \<longrightarrow> named (fs s'))
      \<and> (\<forall>p. is_dir (fs s') p = is_dir (fs s) p)
      \<and> (\<forall>p. is_node (fs s') p = is_node (fs s) p)
      \<and> (\<forall>p. dirlike (fs s') p = dirlike (fs s) p)
      \<and> (\<forall>p. p \<noteq> log_loc s \<longrightarrow> look (fs s') p = look (fs s) p)
      \<and> (\<forall>p. (look (fs s') p = Some (Dir True)) = (look (fs s) p = Some (Dir True)))
      \<and> (look (fs s) (log_loc s) \<noteq> None \<or> \<not> log_ready s \<longrightarrow> map fst (fs s') = map fst (fs s)))"



text \<open>
  What a search is expected to print. An entry is reached from a directory through a
  chain of names: every directory on the way can be read, and the last name is an entry.
  The path printed for it is the root text followed by the names, each after a separator.
  The hits are the printed lines of the reached entries whose own name contains the
  pattern.
\<close>

definition joined :: "string \<Rightarrow> string list \<Rightarrow> string" where
  "joined root ns = root @ concat (map (\<lambda>n. CHR ''/'' # n) ns)"

definition reach :: "fsys \<Rightarrow> path \<Rightarrow> string list \<Rightarrow> bool" where
  "reach f q ns =
     (ns \<noteq> [] \<and> look f (q @ ns) \<noteq> None
      \<and> (\<forall>i < length ns. look f (q @ take i ns) = Some (Dir True)))"

definition contains :: "string \<Rightarrow> string \<Rightarrow> bool" where
  "contains n pat = (\<exists>a b. n = a @ pat @ b)"

definition hits :: "fsys \<Rightarrow> path \<Rightarrow> string \<Rightarrow> string \<Rightarrow> string set" where
  "hits f q root pat = {joined root ns @ nl | ns. reach f q ns \<and> contains (last ns) pat}"

definition entry_hits :: "fsys \<Rightarrow> path \<Rightarrow> string \<Rightarrow> string \<Rightarrow> string \<Rightarrow> string set" where
  "entry_hits f q root pat n =
     (if contains n pat then {root @ CHR ''/'' # n @ nl} else {})
       \<union> hits f (q @ [n]) (root @ CHR ''/'' # n) pat"

text \<open>
  The table is settled for a search when logging will not add an entry to it: the log
  file exists already, or cannot be opened at all.
\<close>

definition settled :: "sys \<Rightarrow> bool" where
  "settled s = (look (fs s) (log_loc s) \<noteq> None \<or> \<not> log_ready s)"

section \<open>Basic facts\<close>

lemma emit_fields [simp]:
  "fs (emit c ok s) = fs s" "cwd (emit c ok s) = cwd s" "now (emit c ok s) = now s"
  "io (emit c ok s) = io s"
  "stdout (emit c ok s) = stdout s" "stderr (emit c ok s) = stderr s"
  "trace (emit c ok s) = trace s @ [(c, ok)]"
  by (simp_all add: emit_def)

lemma print_fields [simp]:
  "fs (print t s) = fs s" "cwd (print t s) = cwd s" "now (print t s) = now s"
  "io (print t s) = io s"
  "stdout (print t s) = stdout s @ [t]" "stderr (print t s) = stderr s"
  "trace (print t s) = trace s"
  by (simp_all add: print_def)

lemma perror_fields [simp]:
  "fs (perror t s) = fs s" "cwd (perror t s) = cwd s" "now (perror t s) = now s"
  "io (perror t s) = io s"
  "stdout (perror t s) = stdout s" "stderr (perror t s) = stderr s @ [t]"
  "trace (perror t s) = trace s"
  by (simp_all add: perror_def)

lemma used_fields [simp]:
  "fs (used s) = fs s" "cwd (used s) = cwd s" "now (used s) = now s" "io (used s) = tl (io s)"
  "stdout (used s) = stdout s" "stderr (used s) = stderr s" "trace (used s) = trace s"
  by (simp_all add: used_def)

lemma look_update: "q \<noteq> [] \<Longrightarrow> look (AList.update q e f) p = (if p = q then Some e else look f p)"
  by (simp add: look_def update_conv')


lemma resolve_log_name:
  "resolve s log_name = (if is_dir (fs s) (cwd s) then Some (log_loc s) else None)"
  by (simp add: resolve_def log_name_def log_loc_def)

lemma resolve_cong: "fs s' = fs s \<Longrightarrow> cwd s' = cwd s \<Longrightarrow> resolve s' p = resolve s p"
  by (simp add: resolve_def)

lemma log_loc_nonempty [simp]: "log_loc s \<noteq> []"
  by (simp add: log_loc_def)

lemma fopen_log_not_ready:
  "\<not> log_ready s \<Longrightarrow> fopen log_name AB s = (None, emit (SysOpen log_name AB) False s)"
  by (cases "look (fs s) (log_loc s)")
     (auto simp add: log_ready_def fopen_def resolve_log_name is_dir_def is_node_def
        split: entry.splits)

lemma logAction_not_ready:
  "\<not> log_ready s \<Longrightarrow> logAction a s = emit (SysOpen log_name AB) False s"
  by (simp add: logAction_def fopen_log_not_ready)

lemma logAction_ready:
  assumes "log_ready s"
  shows "logAction a s =
     emit (SysWrite (log_loc s) (record_line s a)) True
       (emit (SysOpen log_name AB) True
          (s\<lparr>fs := AList.update (log_loc s) (File (log_text s @ record_line s a) (now s)) (fs s)\<rparr>))"
proof (cases "look (fs s) (log_loc s)")
  case None
  with assms show ?thesis
    by (simp add: logAction_def fopen_def resolve_log_name log_ready_def put_def look_update
        log_text_def contents_def record_line_def emit_def)
next
  case (Some e)
  with assms obtain c m where e: "e = File c m"
    by (cases e) (auto simp add: log_ready_def is_dir_def is_node_def)
  with Some assms show ?thesis
    by (simp add: logAction_def fopen_def resolve_log_name log_ready_def put_def
        log_text_def contents_def record_line_def emit_def)
qed

lemma logAction_text:
  "log_ready s \<Longrightarrow> log_text (logAction a s) = log_text s @ record_line s a"
  by (simp add: logAction_ready log_text_def contents_def look_update log_loc_def)

lemma logAction_trace:
  "trace (logAction a s) =
     trace s @ (if log_ready s
                then [(SysOpen log_name AB, True), (SysWrite (log_loc s) (record_line s a), True)]
                else [(SysOpen log_name AB, False)])"
  by (simp add: logAction_ready logAction_not_ready)

section \<open>The search command\<close>

text \<open>
  Claim C2, as the code has it. For every command line whose first token is
  \<^verbatim>\<open>search\<close> and which has a pattern, the dispatcher runs the recursive search from
  the current directory \<^verbatim>\<open>.\<close>, whatever further arguments follow the pattern.
\<close>

theorem search_ignores_root_argument:
  "dispatch fuel (''search'' # pat # rest) s = map_option (Pair False) (searchFile fuel pat ''.'' s)"
  by (cases "searchFile fuel pat ''.'' s") (simp_all add: dispatch_def)

theorem search_ignores_root_argument_witness:
  "dispatch 3 [''search'', ''a.txt'', ''sub''] demo
     = map_option (Pair False) (searchFile 3 ''a.txt'' ''.'' demo)"
  by (rule search_ignores_root_argument)

lemma c2_left: "map_option (\<lambda>r. stdout (snd r)) (dispatch 3 (splitLine ''search a.txt sub'') demo)
   = Some [''./sub/a.txt'' @ nl, ''./sub/deep/a.txt.bak'' @ nl]"
  by code_simp

lemma c2_right: "map_option stdout (searchFile 3 ''a.txt'' ''sub'' demo)
   = Some [''sub/a.txt'' @ nl, ''sub/deep/a.txt.bak'' @ nl]"
  by code_simp

text \<open>
  Claim C2 as stated fails: with a second argument \<^verbatim>\<open>sub\<close> the dispatcher does not
  search from \<^verbatim>\<open>sub\<close>; the paths printed start at \<^verbatim>\<open>.\<close>.
\<close>

theorem search_root_counterexample:
  "dispatch 3 (splitLine ''search a.txt sub'') demo
     \<noteq> map_option (Pair False) (searchFile 3 ''a.txt'' ''sub'' demo)"
proof
  assume "dispatch 3 (splitLine ''search a.txt sub'') demo
     = map_option (Pair False) (searchFile 3 ''a.txt'' ''sub'' demo)"
  then have "map_option (\<lambda>r. stdout (snd r)) (dispatch 3 (splitLine ''search a.txt sub'') demo)
     = map_option stdout (searchFile 3 ''a.txt'' ''sub'' demo)"
    by (simp add: option.map_comp comp_def)
  then show False
    unfolding c2_left c2_right by simp
qed

section \<open>Which operations are logged\<close>


lemma chdir_fs [simp]: "fs (snd (chdir p s)) = fs s" "now (snd (chdir p s)) = now s"
  "stdout (snd (chdir p s)) = stdout s"
  by (simp_all add: chdir_def split: option.splits)





lemma fopen_fail: "fst (fopen p m s) = None \<Longrightarrow> snd (fopen p m s) = emit (SysOpen p m) False s"
  by (auto simp add: fopen_def split: option.splits entry.splits if_splits)

lemma touchFile_unfold:
  "touchFile p s =
     (if fst (fopen p AB s) \<noteq> None
      then logAction (''Created or updated file: '' @ p)
             (print (''File created/updated: '' @ p @ nl) (snd (fopen p AB s)))
      else perror ''touch'' (snd (fopen p AB s)))"
  by (cases "fopen p AB s") (auto simp add: touchFile_def)

lemma opendir_state: "snd (opendir p s) = emit (SysOpendir p) (fst (opendir p s) \<noteq> None) s"
  by (simp add: opendir_def split: option.splits)


lemma log_ready_cong: "fs s' = fs s \<Longrightarrow> cwd s' = cwd s \<Longrightarrow> log_ready s' = log_ready s"
  by (simp add: log_ready_def log_loc_def)

lemma log_text_cong: "fs s' = fs s \<Longrightarrow> cwd s' = cwd s \<Longrightarrow> log_text s' = log_text s"
  by (simp add: log_text_def log_loc_def contents_def)

lemma log_frame [simp]:
  "log_ready (emit c ok s) = log_ready s" "log_ready (print t s) = log_ready s"
  "log_ready (perror t s) = log_ready s"
  "log_text (emit c ok s) = log_text s" "log_text (print t s) = log_text s"
  "log_text (perror t s) = log_text s"
  "record_line (emit c ok s) a = record_line s a" "record_line (print t s) a = record_line s a"
  "record_line (perror t s) a = record_line s a"
  by (simp_all add: log_ready_def log_text_def log_loc_def contents_def record_line_def)

























section \<open>Opening and touching files\<close>

lemma is_dir_update_file:
  "q \<noteq> [] \<Longrightarrow> is_dir (AList.update q (File c m) f) p = (is_dir f p \<and> p \<noteq> q)"
  by (simp add: is_dir_def look_update)

lemma is_node_update_file:
  "q \<noteq> [] \<Longrightarrow> is_node (AList.update q (File c m) f) p = (is_node f p \<and> p \<noteq> q)"
  by (simp add: is_node_def look_update)

lemma is_node_root [simp]: "\<not> is_node f []"
  by (simp add: is_node_def look_def)



lemma walk_cong: "(\<And>p. is_dir f' p = is_dir f p) \<Longrightarrow> walk f' cur cs = walk f cur cs"
  by (induction cs arbitrary: cur) simp_all

lemma walk_nonempty_result:
  "walk f cur cs = Some q \<Longrightarrow> look f q = None \<Longrightarrow> q \<noteq> []"
  by (auto simp add: look_def)

lemma fopen_cong:
  "fs s' = fs s \<Longrightarrow> cwd s' = cwd s \<Longrightarrow> now s' = now s \<Longrightarrow>
     fst (fopen p m s') = fst (fopen p m s) \<and> fs (snd (fopen p m s')) = fs (snd (fopen p m s))"
  by (simp add: fopen_def resolve_def split: option.splits entry.splits)

lemma fopen_cwd [simp]: "cwd (snd (fopen p m s)) = cwd s"
  by (simp add: fopen_def split: option.splits entry.splits)

lemma fopen_stdout [simp]: "stdout (snd (fopen p m s)) = stdout s"
  by (simp add: fopen_def split: option.splits entry.splits)

lemma fopen_RB:
  "fopen p RB s =
     (if stat_of s p = None \<or> stat_of s p = Some (Dir False) \<or> (\<exists>k. stat_of s p = Some (Node k))
      then (None, emit (SysOpen p RB) False s)
      else (resolve s p, emit (SysOpen p RB) True s))"
  by (simp add: fopen_def stat_of_def split: option.splits entry.splits)

text \<open>What a successful open for writing or appending does to the table.\<close>

lemma fopen_write_ok:
  assumes "fst (fopen p m s) = Some q" "m \<noteq> RB"
  shows "resolve s p = Some q \<and> \<not> is_dir (fs s) q \<and> q \<noteq> []
         \<and> snd (fopen p m s) =
             emit (SysOpen p m) True
               (if m = WB \<or> look (fs s) q = None
                then s\<lparr>fs := AList.update q (File [] (now s)) (fs s)\<rparr> else s)"
proof (cases "resolve s p")
  case None
  with assms show ?thesis by (simp add: fopen_def)
next
  case (Some q')
  show ?thesis
  proof (cases "look (fs s) q'")
    case None
    with Some assms show ?thesis
      by (auto simp add: fopen_def is_dir_def look_def)
  next
    case (Some e)
    with \<open>resolve s p = Some q'\<close> assms show ?thesis
      by (cases e) (auto simp add: fopen_def is_dir_def look_def split: if_splits)
  qed
qed

lemma fopen_is_dir: "is_dir (fs (snd (fopen p m s))) x = is_dir (fs s) x"
proof (cases "fst (fopen p m s)")
  case None
  then show ?thesis by (simp add: fopen_fail)
next
  case (Some q)
  show ?thesis
  proof (cases "m = RB")
    case True
    then show ?thesis by (simp add: fopen_RB)
  next
    case False
    with Some fopen_write_ok [of p m s q] show ?thesis
      by (auto simp add: is_dir_update_file)
  qed
qed

lemma fopen_AB_contents: "contents x (snd (fopen p AB s)) = contents x s"
proof (cases "fst (fopen p AB s)")
  case None
  then show ?thesis by (simp add: fopen_fail contents_def)
next
  case (Some q)
  with fopen_write_ok [of p AB s q] show ?thesis
    by (auto simp add: contents_def look_update)
qed

lemma logAction_fields [simp]:
  "cwd (logAction a s) = cwd s" "now (logAction a s) = now s"
  "stdout (logAction a s) = stdout s" "stderr (logAction a s) = stderr s"
  by (cases "log_ready s"; simp add: logAction_ready logAction_not_ready)+

lemma logAction_look:
  "p \<noteq> log_loc s \<Longrightarrow> look (fs (logAction a s)) p = look (fs s) p"
  by (cases "log_ready s") (simp_all add: logAction_ready logAction_not_ready look_update)

lemma logAction_is_dir: "is_dir (fs (logAction a s)) p = is_dir (fs s) p"
  by (cases "log_ready s")
     (auto simp add: logAction_ready logAction_not_ready is_dir_update_file log_ready_def)

lemma log_ready_is_dir:
  "(\<And>p. is_dir (fs s') p = is_dir (fs s) p) \<Longrightarrow> (\<And>p. is_node (fs s') p = is_node (fs s) p)
     \<Longrightarrow> cwd s' = cwd s \<Longrightarrow> log_ready s' = log_ready s"
  by (simp add: log_ready_def log_loc_def)

subsection \<open>Touch\<close>

lemma touchFile_look:
  assumes "q \<noteq> log_loc s"
  shows "look (fs (touchFile p s)) q = look (fs (snd (fopen p AB s))) q"
  using assms by (simp add: touchFile_unfold logAction_look log_loc_def)

lemma touchFile_existing:
  assumes "resolve s p = Some q" "look (fs s) q = Some (File c m)" "q \<noteq> log_loc s"
  shows "look (fs (touchFile p s)) q = Some (File c m)"
  using assms by (simp add: touchFile_look fopen_def)

lemma touchFile_creates:
  assumes "resolve s p = Some q" "look (fs s) q = None" "q \<noteq> log_loc s"
  shows "look (fs (touchFile p s)) q = Some (File [] (now s))"
proof -
  from assms(1,2) have "q \<noteq> []" by (auto simp add: look_def)
  with assms show ?thesis by (simp add: touchFile_look fopen_def look_update)
qed

text \<open>
  Claim C9 at an existing file. \<^verbatim>\<open>notes.txt\<close> was last modified at 09:00; it is
  touched when the clock shows 10:00. The call succeeds and the bytes stay, but the
  entry still carries 09:00: opening for append and closing writes nothing, so the
  modification time is not updated.
\<close>

theorem touch_existing_keeps_mtime:
  "now demo = ''10:00''
   \<and> look (fs demo) [''home'', ''notes.txt''] = Some (File ''hello'' ''09:00'')
   \<and> fst (fopen ''notes.txt'' AB demo) = Some [''home'', ''notes.txt'']
   \<and> look (fs (touchFile ''notes.txt'' demo)) [''home'', ''notes.txt'']
        = Some (File ''hello'' ''09:00'')"
  by code_simp

section \<open>Copying\<close>

lemma fread_fields [simp]:
  "fs (snd (fread h pos n s)) = fs s" "cwd (snd (fread h pos n s)) = cwd s"
  "now (snd (fread h pos n s)) = now s" "stdout (snd (fread h pos n s)) = stdout s"
  "io (snd (fread h pos n s)) = tl (io s)"
  by (simp_all add: fread_def split: option.splits entry.splits)

lemma fread_file:
  "look (fs s) h = Some (File c m) \<Longrightarrow>
     fread h pos n s =
       (take (allowance n s) (drop pos c),
        emit (SysRead h) (take (allowance n s) (drop pos c) = take n (drop pos c)) (used s))"
  by (simp add: fread_def)

lemma fread_no_file:
  "(\<And>c m. look (fs s) h \<noteq> Some (File c m)) \<Longrightarrow> fst (fread h pos n s) = []"
  by (simp add: fread_def split: option.splits entry.splits)

lemma fread_trace:
  "\<exists>ok. trace (snd (fread h pos n s)) = trace s @ [(SysRead h, ok)]"
  by (auto simp add: fread_def split: option.splits entry.splits)

lemma allowance_free [simp]: "io s = [] \<Longrightarrow> allowance n s = n"
  by (simp add: allowance_def)

lemma allowance_le: "allowance n s \<le> n"
  by (simp add: allowance_def split: list.splits)

lemma fwrite_fields [simp]:
  "cwd (fwrite h t s) = cwd s" "now (fwrite h t s) = now s" "stdout (fwrite h t s) = stdout s"
  "io (fwrite h t s) = tl (io s)"
  by (simp_all add: fwrite_def split: option.splits entry.splits)

lemma fwrite_trace:
  "\<exists>ok. trace (fwrite h t s) = trace s @ [(SysWrite h t, ok)]"
  by (auto simp add: fwrite_def split: option.splits entry.splits)

lemma fwrite_look_other: "p \<noteq> h \<Longrightarrow> look (fs (fwrite h t s)) p = look (fs s) p"
  by (auto simp add: fwrite_def look_def update_conv' split: option.splits entry.splits)

lemma fwrite_file:
  "look (fs s) h = Some (File c m) \<Longrightarrow>
     \<exists>m'. look (fs (fwrite h t s)) h = Some (File (c @ take (allowance (length t) s) t) m')"
  by (auto simp add: fwrite_def look_def update_conv' split: if_splits)

lemma fwrite_file_ok:
  "look (fs s) h = Some (File c m) \<Longrightarrow>
     trace (fwrite h t s) = trace s @ [(SysWrite h t, length t \<le> allowance (length t) s)]"
  by (simp add: fwrite_def)

lemma fwrite_is_dir: "is_dir (fs (fwrite h t s)) p = is_dir (fs s) p"
proof (cases "p = h")
  case False
  then show ?thesis by (simp add: is_dir_def fwrite_look_other)
next
  case True
  show ?thesis
  proof (cases "look (fs s) h")
    case None
    with True show ?thesis by (simp add: fwrite_def)
  next
    case (Some e)
    with True fwrite_file [of s h _ _ t] show ?thesis
      by (cases e) (auto simp add: is_dir_def fwrite_def)
  qed
qed

lemma fwrite_is_node: "is_node (fs (fwrite h t s)) p = is_node (fs s) p"
proof (cases "p = h")
  case False
  then show ?thesis by (simp add: is_node_def fwrite_look_other)
next
  case True
  show ?thesis
  proof (cases "look (fs s) h")
    case None
    with True show ?thesis by (simp add: fwrite_def)
  next
    case (Some e)
    with True fwrite_file [of s h _ _ t] show ?thesis
      by (cases e) (auto simp add: is_node_def fwrite_def)
  qed
qed

text \<open>One round of the copy loop.\<close>

lemma copy_loop_Suc:
  "copy_loop (Suc k) i pos out s =
     (if fst (fread i pos 4096 s) = [] then Some (snd (fread i pos 4096 s))
      else copy_loop k i (pos + length (fst (fread i pos 4096 s))) out
             (fwrite out (fst (fread i pos 4096 s)) (snd (fread i pos 4096 s))))"
  by (cases "fread i pos 4096 s") simp

declare copy_loop.simps(2) [simp del]

lemma copy_loop_frame:
  "copy_loop k i pos out s = Some s' \<Longrightarrow>
     cwd s' = cwd s \<and> now s' = now s \<and> stdout s' = stdout s
     \<and> (\<forall>p. p \<noteq> out \<longrightarrow> look (fs s') p = look (fs s) p)
     \<and> (\<forall>p. is_dir (fs s') p = is_dir (fs s) p)
     \<and> (\<forall>p. is_node (fs s') p = is_node (fs s) p)"
proof (induction k arbitrary: pos s)
  case 0
  then show ?case by simp
next
  case (Suc k)
  show ?case
  proof (cases "fst (fread i pos 4096 s) = []")
    case True
    with Suc.prems show ?thesis by (auto simp add: copy_loop_Suc)
  next
    case False
    with Suc.prems have "copy_loop k i (pos + length (fst (fread i pos 4096 s))) out
        (fwrite out (fst (fread i pos 4096 s)) (snd (fread i pos 4096 s))) = Some s'"
      by (simp add: copy_loop_Suc)
    from Suc.IH [OF this] show ?thesis
      by (simp add: fwrite_look_other fwrite_is_dir fwrite_is_node)
  qed
qed

lemma copy_loop_trace:
  "copy_loop k i pos out s = Some s' \<Longrightarrow> \<exists>tr. trace s' = trace s @ tr"
proof (induction k arbitrary: pos s)
  case 0
  then show ?case by simp
next
  case (Suc k)
  obtain okr where r: "trace (snd (fread i pos 4096 s)) = trace s @ [(SysRead i, okr)]"
    using fread_trace by blast
  show ?case
  proof (cases "fst (fread i pos 4096 s) = []")
    case True
    with Suc.prems r show ?thesis by (auto simp add: copy_loop_Suc)
  next
    case False
    with Suc.prems have "copy_loop k i (pos + length (fst (fread i pos 4096 s))) out
        (fwrite out (fst (fread i pos 4096 s)) (snd (fread i pos 4096 s))) = Some s'"
      by (simp add: copy_loop_Suc)
    from Suc.IH [OF this] obtain tr where
      "trace s' = trace (fwrite out (fst (fread i pos 4096 s)) (snd (fread i pos 4096 s))) @ tr"
      by blast
    moreover obtain okw where
      "trace (fwrite out (fst (fread i pos 4096 s)) (snd (fread i pos 4096 s)))
         = trace (snd (fread i pos 4096 s)) @ [(SysWrite out (fst (fread i pos 4096 s)), okw)]"
      using fwrite_trace by blast
    ultimately show ?thesis using r by simp
  qed
qed

text \<open>
  One round of fuel per byte left, and one more, is enough for the loop, whatever the
  environment lets through.
\<close>

lemma copy_loop_returns:
  assumes "length (contents i s) - pos < k" "i \<noteq> out \<or> contents i s = []"
  shows "\<exists>s'. copy_loop k i pos out s = Some s'"
  using assms
proof (induction k arbitrary: pos s)
  case 0
  then show ?case by simp
next
  case (Suc k)
  show ?case
  proof (cases "fst (fread i pos 4096 s) = []")
    case True
    then show ?thesis by (simp add: copy_loop_Suc)
  next
    case False
    then have "\<exists>c m. look (fs s) i = Some (File c m)"
      using fread_no_file [of s i pos 4096] by blast
    then obtain c m where f: "look (fs s) i = Some (File c m)" by blast
    let ?b = "take (allowance 4096 s) (drop pos c)"
    let ?s1 = "snd (fread i pos 4096 s)"
    from f have rd: "fst (fread i pos 4096 s) = ?b" and ct: "contents i s = c"
      by (simp_all add: fread_file contents_def)
    from False rd ct Suc.prems(2) have ne: "i \<noteq> out" by auto
    let ?s2 = "fwrite out ?b ?s1"
    have pos: "pos < length c" using False rd by (cases "pos < length c") auto
    have len: "0 < length ?b" using False rd by simp
    have "contents i ?s2 = c"
      using f ne by (simp add: contents_def fwrite_look_other)
    moreover have "length c - pos < Suc k"
      using Suc.prems(1) ct by simp
    then have "length c - (pos + length ?b) < k"
      using pos len by linarith
    ultimately have "\<exists>s'. copy_loop k i (pos + length ?b) out ?s2 = Some s'"
      using ne by (intro Suc.IH) simp_all
    with False rd show ?thesis by (simp add: copy_loop_Suc)
  qed
qed

text \<open>
  When no transfer of the loop fell short, the output holds the whole input at the end
  (input and output being different files).
\<close>

lemma copy_loop_exact:
  assumes "i \<noteq> out" "look (fs s) i = Some (File c m)"
    "look (fs s) out = Some (File (take pos c) m')"
    "copy_loop k i pos out s = Some s'" "trace s' = trace s @ tr" "complete tr"
  shows "\<exists>m''. look (fs s') out = Some (File c m'')"
  using assms
proof (induction k arbitrary: pos s m' tr)
  case 0
  then show ?case by simp
next
  case (Suc k)
  define b where "b = take (allowance 4096 s) (drop pos c)"
  define okr where "okr = (b = take 4096 (drop pos c))"
  define s1 where "s1 = emit (SysRead i) okr (used s)"
  have rd: "fread i pos 4096 s = (b, s1)"
    using fread_file [OF Suc.prems(2), of pos 4096] by (simp add: b_def okr_def s1_def)
  have f1: "fs s1 = fs s" and t1: "trace s1 = trace s @ [(SysRead i, okr)]"
    by (simp_all add: s1_def)
  show ?case
  proof (cases "b = []")
    case True
    with Suc.prems(4) rd have s': "s' = s1" by (simp add: copy_loop_Suc)
    with Suc.prems(5) t1 have "tr = [(SysRead i, okr)]" by simp
    with Suc.prems(6) have okr by (simp add: complete_def)
    with True have "take 4096 (drop pos c) = []" by (simp add: okr_def)
    then have "length c \<le> pos" by (cases "drop pos c") auto
    with Suc.prems(3) s' f1 show ?thesis by simp
  next
    case False
    define okw where "okw = (length b \<le> allowance (length b) s1)"
    define s2 where "s2 = fwrite out b s1"
    from False Suc.prems(4) rd have run: "copy_loop k i (pos + length b) out s2 = Some s'"
      by (simp add: copy_loop_Suc s2_def)
    from copy_loop_trace [OF run] obtain tr' where tr': "trace s' = trace s2 @ tr'" by blast
    have o1: "look (fs s1) out = Some (File (take pos c) m')"
      using Suc.prems(3) f1 by simp
    have t2: "trace s2 = trace s @ [(SysRead i, okr), (SysWrite out b, okw)]"
      using fwrite_file_ok [OF o1, of b] t1 by (simp add: s2_def okw_def)
    with tr' Suc.prems(5) have "tr = [(SysRead i, okr), (SysWrite out b, okw)] @ tr'" by simp
    with Suc.prems(6) have okr: okr and okw: okw and rest: "complete tr'"
      by (simp_all add: complete_def)
    have a: "look (fs s2) i = Some (File c m)"
      using Suc.prems(1,2) f1 by (simp add: fwrite_look_other s2_def)
    from okw have "take (allowance (length b) s1) b = b" by (simp add: okw_def)
    with fwrite_file [OF o1, of b] obtain m2 where
      "look (fs s2) out = Some (File (take pos c @ b) m2)" by (auto simp add: s2_def)
    moreover have "take pos c @ take 4096 (drop pos c) = take (pos + length (take 4096 (drop pos c))) c"
      by (simp add: take_add min_def)
    ultimately have b: "look (fs s2) out = Some (File (take (pos + length b) c) m2)"
      using okr by (simp add: okr_def)
    from Suc.IH [OF Suc.prems(1) a b run tr' rest] show ?thesis .
  qed
qed

text \<open>In an environment that cuts nothing short, no transfer of the loop falls short.\<close>

lemma copy_loop_free:
  assumes "i \<noteq> out" "look (fs s) i = Some (File c m)" "look (fs s) out = Some (File c' m')"
    "io s = []" "copy_loop k i pos out s = Some s'" "trace s' = trace s @ tr"
  shows "complete tr"
  using assms
proof (induction k arbitrary: pos s c' m' tr)
  case 0
  then show ?case by simp
next
  case (Suc k)
  define b where "b = take 4096 (drop pos c)"
  define s1 where "s1 = emit (SysRead i) True (used s)"
  have rd: "fread i pos 4096 s = (b, s1)"
    using fread_file [OF Suc.prems(2), of pos 4096] Suc.prems(4) by (simp add: b_def s1_def)
  have f1: "fs s1 = fs s" and t1: "trace s1 = trace s @ [(SysRead i, True)]"
    and io1: "io s1 = []"
    using Suc.prems(4) by (simp_all add: s1_def)
  show ?case
  proof (cases "b = []")
    case True
    with Suc.prems(5) rd have "s' = s1" by (simp add: copy_loop_Suc)
    with Suc.prems(6) t1 have "tr = [(SysRead i, True)]" by simp
    then show ?thesis by (simp add: complete_def)
  next
    case False
    define s2 where "s2 = fwrite out b s1"
    from False Suc.prems(5) rd have run: "copy_loop k i (pos + length b) out s2 = Some s'"
      by (simp add: copy_loop_Suc s2_def)
    from copy_loop_trace [OF run] obtain tr' where tr': "trace s' = trace s2 @ tr'" by blast
    have o1: "look (fs s1) out = Some (File c' m')"
      using Suc.prems(3) f1 by simp
    have t2: "trace s2 = trace s @ [(SysRead i, True), (SysWrite out b, True)]"
      using fwrite_file_ok [OF o1, of b] io1 t1 by (simp add: s2_def)
    with tr' Suc.prems(6) have tr: "tr = [(SysRead i, True), (SysWrite out b, True)] @ tr'" by simp
    have a: "look (fs s2) i = Some (File c m)"
      using Suc.prems(1,2) f1 by (simp add: fwrite_look_other s2_def)
    from fwrite_file [OF o1, of b] obtain c2 m2 where
      b: "look (fs s2) out = Some (File c2 m2)" by (auto simp add: s2_def)
    have "io s2 = []" using io1 by (simp add: s2_def)
    from Suc.IH [OF Suc.prems(1) a b this run tr'] tr show ?thesis
      by (simp add: complete_def)
  qed
qed

lemma copyFile_fail_src:
  "fst (fopen src RB s) = None \<Longrightarrow> copyFile fuel src dest s = Some (False, snd (fopen src RB s))"
  by (cases "fopen src RB s") (simp add: copyFile_def)

lemma copyFile_fail_dest:
  "fst (fopen src RB s) = Some i \<Longrightarrow> fst (fopen dest WB (snd (fopen src RB s))) = None \<Longrightarrow>
     copyFile fuel src dest s = Some (False, snd (fopen dest WB (snd (fopen src RB s))))"
  by (cases "fopen src RB s"; cases "fopen dest WB (snd (fopen src RB s))") (simp add: copyFile_def)

lemma copyFile_ok:
  "fst (fopen src RB s) = Some i \<Longrightarrow> fst (fopen dest WB (snd (fopen src RB s))) = Some out \<Longrightarrow>
     copy_loop fuel i 0 out (snd (fopen dest WB (snd (fopen src RB s)))) = Some s3 \<Longrightarrow>
     copyFile fuel src dest s = Some (True, logAction (''Copied file: '' @ src @ '' -> '' @ dest) s3)"
  by (cases "fopen src RB s"; cases "fopen dest WB (snd (fopen src RB s))") (simp add: copyFile_def)

lemma fopen_RB_ok:
  "fst (fopen p RB s) = Some q \<Longrightarrow>
     resolve s p = Some q \<and> look (fs s) q \<noteq> None \<and> snd (fopen p RB s) = emit (SysOpen p RB) True s"
  by (auto simp add: fopen_RB stat_of_def split: if_splits option.splits)

text \<open>
  The state in which the copy loop runs, and what it leaves behind: the calls made, the
  output when none of its transfers fell short, and that none does in an environment
  that cuts nothing short.
\<close>

lemma copyFile_run:
  assumes i: "fst (fopen src RB s) = Some i"
    and o: "fst (fopen dest WB s) = Some out"
    and fuel: "length (contents i s) < fuel"
  shows "\<exists>s3 tr. copyFile fuel src dest s
             = Some (True, logAction (''Copied file: '' @ src @ '' -> '' @ dest) s3)
           \<and> cwd s3 = cwd s \<and> now s3 = now s
           \<and> (\<forall>p. is_dir (fs s3) p = is_dir (fs s) p)
           \<and> (\<forall>p. is_node (fs s3) p = is_node (fs s) p)
           \<and> (\<forall>p. p \<noteq> out \<longrightarrow> look (fs s3) p = look (fs s) p)
           \<and> trace s3 = trace s @ tr
           \<and> (i \<noteq> out \<longrightarrow> complete tr \<longrightarrow> contents out s3 = contents i s)
           \<and> (i \<noteq> out \<longrightarrow> io s = [] \<longrightarrow> \<not> is_dir (fs s) i \<longrightarrow> complete tr)
           \<and> (i = out \<longrightarrow> contents out s3 = [])"
proof -
  define s1 where "s1 = snd (fopen src RB s)"
  define s2 where "s2 = snd (fopen dest WB s1)"
  from fopen_RB_ok [OF i] have s1: "s1 = emit (SysOpen src RB) True s"
    and ri: "resolve s src = Some i" and li: "look (fs s) i \<noteq> None"
    by (simp_all add: s1_def)
  have same: "fs s1 = fs s" "cwd s1 = cwd s" "now s1 = now s"
    by (simp_all add: s1)
  from fopen_cong [OF same, of dest WB] o
  have o1: "fst (fopen dest WB s1) = Some out" by simp
  from fopen_write_ok [OF o1] same
  have ro: "\<not> is_dir (fs s) out" "out \<noteq> []"
    and s2: "s2 = emit (SysOpen dest WB) True (s1\<lparr>fs := AList.update out (File [] (now s)) (fs s)\<rparr>)"
    by (simp_all add: s2_def)
  have fs2: "fs s2 = AList.update out (File [] (now s)) (fs s)"
    and cwd2: "cwd s2 = cwd s" and now2: "now s2 = now s" and io2: "io s2 = io s"
    and tr2: "trace s2 = trace s @ [(SysOpen src RB, True), (SysOpen dest WB, True)]"
    by (simp_all add: s2 s1)
  have look2: "\<And>p. look (fs s2) p = (if p = out then Some (File [] (now s)) else look (fs s) p)"
    by (simp add: fs2 look_update ro)
  have rn: "\<not> is_node (fs s) out"
    using o by (auto simp add: fopen_def is_node_def split: option.splits entry.splits if_splits)
  have dir2: "\<And>p. is_dir (fs s2) p = is_dir (fs s) p"
    using ro by (auto simp add: fs2 is_dir_update_file)
  have node2: "\<And>p. is_node (fs s2) p = is_node (fs s) p"
    using ro rn by (auto simp add: fs2 is_node_update_file)
  have cont2: "contents i s2 = (if i = out then [] else contents i s)"
    by (simp add: contents_def look2)
  have "length (contents i s2) - 0 < fuel"
    using fuel by (simp add: cont2)
  moreover have "i \<noteq> out \<or> contents i s2 = []"
    by (simp add: cont2)
  ultimately obtain s3 where s3: "copy_loop fuel i 0 out s2 = Some s3"
    using copy_loop_returns by blast
  from copy_loop_trace [OF s3] obtain tl where tl: "trace s3 = trace s2 @ tl" by blast
  define tr where "tr = [(SysOpen src RB, True), (SysOpen dest WB, True)] @ tl"
  have tr3: "trace s3 = trace s @ tr" by (simp add: tl tr2 tr_def)
  have ctr: "complete tr = complete tl" by (simp add: tr_def complete_def)
  from copy_loop_frame [OF s3]
  have fr: "cwd s3 = cwd s" "now s3 = now s" "\<And>p. is_dir (fs s3) p = is_dir (fs s) p"
    "\<And>p. is_node (fs s3) p = is_node (fs s) p"
    "\<And>p. p \<noteq> out \<Longrightarrow> look (fs s3) p = look (fs s) p"
    by (simp_all add: cwd2 now2 dir2 node2 look2)
  from fuel obtain k where k: "fuel = Suc k" by (cases fuel) auto
  have nofile: "s3 = snd (fread i 0 4096 s2)" if "\<And>c m. look (fs s2) i \<noteq> Some (File c m)"
    using s3 fread_no_file [of s2 i 0 4096] that by (simp add: k copy_loop_Suc)
  have diff: "contents out s3 = contents i s" if ne: "i \<noteq> out" and c: "complete tr"
  proof (cases "\<exists>c m. look (fs s) i = Some (File c m)")
    case True
    then obtain c m where f: "look (fs s) i = Some (File c m)" by blast
    have a: "look (fs s2) i = Some (File c m)"
      using f ne by (simp add: look2)
    have b: "look (fs s2) out = Some (File (take 0 c) (now s))"
      by (simp add: look2)
    from copy_loop_exact [OF ne a b s3 tl] c ctr f show ?thesis
      by (auto simp add: contents_def)
  next
    case False
    with ne have "\<And>c m. look (fs s2) i \<noteq> Some (File c m)" by (simp add: look2)
    from nofile [OF this] False show ?thesis
      by (auto simp add: contents_def look2 split: option.splits entry.splits)
  qed
  have free: "complete tr" if ne: "i \<noteq> out" and io: "io s = []" and nd: "\<not> is_dir (fs s) i"
  proof -
    from i have "\<not> is_node (fs s) i"
      using ri by (auto simp add: fopen_def is_node_def split: option.splits entry.splits if_splits)
    with nd li have "\<exists>c m. look (fs s) i = Some (File c m)"
      by (auto simp add: is_dir_def is_node_def split: option.splits entry.splits)
    then obtain c m where f: "look (fs s) i = Some (File c m)" by blast
    have a: "look (fs s2) i = Some (File c m)"
      using f ne by (simp add: look2)
    have b: "look (fs s2) out = Some (File [] (now s))"
      by (simp add: look2)
    from copy_loop_free [OF ne a b _ s3 tl] io io2 ctr show ?thesis by simp
  qed
  have eq: "contents out s3 = []" if e: "i = out"
  proof -
    have rd: "fread i 0 4096 s2 = ([], emit (SysRead i) True (used s2))"
      using e fread_file [of s2 i "[]" "now s" 0 4096] by (simp add: look2)
    with s3 have "s3 = emit (SysRead i) True (used s2)" by (simp add: k copy_loop_Suc)
    then show ?thesis by (simp add: contents_def look2)
  qed
  from copyFile_ok [OF i o1 [unfolded s1_def] s3 [unfolded s2_def s1_def]] fr tr3 diff free eq
  show ?thesis by blast
qed

text \<open>
  Claim C6. With fuel for one round per byte of the source, \<^verbatim>\<open>copyFile\<close> returns.
  It returns failure exactly when the source cannot be opened for reading or the
  destination cannot be opened for writing; on failure the filesystem, and with it the
  log, is unchanged; on success the log ends with the record of the copy (the log being a
  file that can be opened), and what precedes the record is the former log unless the
  destination is the log file itself.
\<close>

theorem copyFile_failure_and_logging:
  assumes fuel: "size_at s src < fuel"
  shows "\<exists>ok s'. copyFile fuel src dest s = Some (ok, s')
     \<and> (\<not> ok \<longleftrightarrow> fst (fopen src RB s) = None \<or> fst (fopen dest WB s) = None)
     \<and> (\<not> ok \<longrightarrow> fs s' = fs s)
     \<and> (ok \<and> log_ready s \<longrightarrow>
          (\<exists>pre. log_text s' = pre @ record_line s (''Copied file: '' @ src @ '' -> '' @ dest)
             \<and> (resolve s dest \<noteq> Some (log_loc s) \<longrightarrow> pre = log_text s)))"
proof (cases "fst (fopen src RB s)")
  case None
  from copyFile_fail_src [OF None, of fuel dest] fopen_fail [OF None] None show ?thesis
    by (intro exI [of _ False] exI [of _ "snd (fopen src RB s)"]) simp
next
  case (Some i)
  from fopen_RB_ok [OF Some] have s1: "snd (fopen src RB s) = emit (SysOpen src RB) True s"
    and ri: "resolve s src = Some i"
    by simp_all
  have same: "fs (snd (fopen src RB s)) = fs s" "cwd (snd (fopen src RB s)) = cwd s"
    "now (snd (fopen src RB s)) = now s"
    by (simp_all add: s1)
  show ?thesis
  proof (cases "fst (fopen dest WB s)")
    case None
    with fopen_cong [OF same, of dest WB]
    have n1: "fst (fopen dest WB (snd (fopen src RB s))) = None" by simp
    from copyFile_fail_dest [OF Some n1, of fuel] fopen_fail [OF n1] Some None same show ?thesis
      by (intro exI [of _ False] exI [of _ "snd (fopen dest WB (snd (fopen src RB s)))"]) simp
  next
    case (Some out)
    from fuel ri have "length (contents i s) < fuel" by (simp add: size_at_def)
    from copyFile_run [OF \<open>fst (fopen src RB s) = Some i\<close> Some this]
    obtain s3 where run: "copyFile fuel src dest s
          = Some (True, logAction (''Copied file: '' @ src @ '' -> '' @ dest) s3)"
      and fr: "cwd s3 = cwd s" "now s3 = now s" "\<And>p. is_dir (fs s3) p = is_dir (fs s) p"
        "\<And>p. is_node (fs s3) p = is_node (fs s) p"
        "\<And>p. p \<noteq> out \<Longrightarrow> look (fs s3) p = look (fs s) p"
      by blast
    have ready: "log_ready s3 = log_ready s"
      using fr by (simp add: log_ready_def log_loc_def)
    have rl: "record_line s3 = record_line s"
      using fr by (simp add: record_line_def fun_eq_iff)
    have out: "resolve s dest = Some out"
      using fopen_write_ok [OF Some] by simp
    have keep: "log_text s3 = log_text s" if "out \<noteq> log_loc s"
      using that fr by (simp add: log_text_def contents_def log_loc_def)
    have "log_text (logAction (''Copied file: '' @ src @ '' -> '' @ dest) s3)
        = log_text s3 @ record_line s (''Copied file: '' @ src @ '' -> '' @ dest)"
      if "log_ready s"
      using that ready rl logAction_text [of s3] by simp
    with keep out have "log_ready s \<longrightarrow>
        (\<exists>pre. log_text (logAction (''Copied file: '' @ src @ '' -> '' @ dest) s3)
              = pre @ record_line s (''Copied file: '' @ src @ '' -> '' @ dest)
           \<and> (resolve s dest \<noteq> Some (log_loc s) \<longrightarrow> pre = log_text s))"
      by auto
    with run Some \<open>fst (fopen src RB s) = Some i\<close> show ?thesis
      by (intro exI [of _ True]
            exI [of _ "logAction (''Copied file: '' @ src @ '' -> '' @ dest) s3"]) simp
  qed
qed

lemma copy_demo_fuel: "size_at demo ''notes.txt'' < 6"
  by code_simp

theorem copyFile_failure_and_logging_witness:
  "size_at demo ''notes.txt'' < 6
   \<and> (\<exists>ok s'. copyFile 6 ''notes.txt'' ''copy.txt'' demo = Some (ok, s')
     \<and> (\<not> ok \<longleftrightarrow> fst (fopen ''notes.txt'' RB demo) = None \<or> fst (fopen ''copy.txt'' WB demo) = None)
     \<and> (\<not> ok \<longrightarrow> fs s' = fs demo)
     \<and> (ok \<and> log_ready demo \<longrightarrow>
          (\<exists>pre. log_text s' = pre @ record_line demo (''Copied file: '' @ ''notes.txt'' @ '' -> '' @ ''copy.txt'')
             \<and> (resolve demo ''copy.txt'' \<noteq> Some (log_loc demo) \<longrightarrow> pre = log_text demo))))"
  using copy_demo_fuel copyFile_failure_and_logging [OF copy_demo_fuel, of "''copy.txt''"]
  by blast

text \<open>
  Claim C5, as the code has it. When source and destination are different files and
  neither is the activity log of the current directory, a copy with enough fuel reports
  success and leaves the source entry as it was; the destination then holds the bytes of
  the source provided no \<^verbatim>\<open>fread\<close> or \<^verbatim>\<open>fwrite\<close> of the run fell short, as
  none does in an environment that cuts no transfer short.
\<close>

theorem copyFile_copies:
  assumes src: "resolve s src = Some i" "look (fs s) i = Some (File c m)"
    and dest: "fst (fopen dest WB s) = Some out"
    and apart: "i \<noteq> out" "i \<noteq> log_loc s" "out \<noteq> log_loc s"
    and fuel: "length c < fuel"
  shows "\<exists>s'. copyFile fuel src dest s = Some (True, s')
           \<and> look (fs s') i = Some (File c m)
           \<and> (complete (new_trace s s') \<longrightarrow> contents out s' = c)
           \<and> (io s = [] \<longrightarrow> complete (new_trace s s'))"
proof -
  have i: "fst (fopen src RB s) = Some i"
    using src by (simp add: fopen_RB stat_of_def)
  have ci: "contents i s = c" using src by (simp add: contents_def)
  have nd: "\<not> is_dir (fs s) i" using src by (simp add: is_dir_def)
  from copyFile_run [OF i dest, of fuel] fuel ci
  obtain s3 tr where run: "copyFile fuel src dest s
        = Some (True, logAction (''Copied file: '' @ src @ '' -> '' @ dest) s3)"
    and fr: "cwd s3 = cwd s" "\<And>p. p \<noteq> out \<Longrightarrow> look (fs s3) p = look (fs s) p"
    and tr: "trace s3 = trace s @ tr"
    and ex: "complete tr \<Longrightarrow> contents out s3 = c"
    and free: "io s = [] \<Longrightarrow> complete tr"
    using apart(1) nd by auto
  have ll: "log_loc s3 = log_loc s" using fr(1) by (simp add: log_loc_def)
  let ?s' = "logAction (''Copied file: '' @ src @ '' -> '' @ dest) s3"
  obtain tl where tl: "trace ?s' = trace s3 @ tl" "complete tl"
    using logAction_trace [of "''Copied file: '' @ src @ '' -> '' @ dest" s3]
    by (simp add: complete_def)
  from tr tl have nt: "new_trace s ?s' = tr @ tl" by (simp add: new_trace_def)
  with tl have c: "complete (new_trace s ?s') = complete tr" by (simp add: complete_def)
  have "look (fs ?s') out = look (fs s3) out" "look (fs ?s') i = look (fs s3) i"
    using apart ll by (simp_all add: logAction_look)
  with fr apart src ex have "complete tr \<Longrightarrow> contents out ?s' = c"
    "look (fs ?s') i = Some (File c m)"
    by (simp_all add: contents_def)
  with run c free show ?thesis by simp
qed

lemma copy_demo_hyps:
  "resolve demo ''notes.txt'' = Some [''home'', ''notes.txt'']
   \<and> look (fs demo) [''home'', ''notes.txt''] = Some (File ''hello'' ''09:00'')
   \<and> fst (fopen ''sub/a.txt'' WB demo) = Some [''home'', ''sub'', ''a.txt'']
   \<and> [''home'', ''notes.txt''] \<noteq> [''home'', ''sub'', ''a.txt'']
   \<and> [''home'', ''notes.txt''] \<noteq> log_loc demo
   \<and> [''home'', ''sub'', ''a.txt''] \<noteq> log_loc demo
   \<and> length ''hello'' < 6 \<and> io demo = []"
  by code_simp

theorem copyFile_copies_witness:
  "(resolve demo ''notes.txt'' = Some [''home'', ''notes.txt'']
    \<and> look (fs demo) [''home'', ''notes.txt''] = Some (File ''hello'' ''09:00'')
    \<and> fst (fopen ''sub/a.txt'' WB demo) = Some [''home'', ''sub'', ''a.txt'']
    \<and> [''home'', ''notes.txt''] \<noteq> [''home'', ''sub'', ''a.txt'']
    \<and> [''home'', ''notes.txt''] \<noteq> log_loc demo
    \<and> [''home'', ''sub'', ''a.txt''] \<noteq> log_loc demo
    \<and> length ''hello'' < 6 \<and> io demo = [])
   \<and> (\<exists>s'. copyFile 6 ''notes.txt'' ''sub/a.txt'' demo = Some (True, s')
         \<and> complete (new_trace demo s')
         \<and> contents [''home'', ''sub'', ''a.txt''] s' = ''hello''
         \<and> look (fs s') [''home'', ''notes.txt''] = Some (File ''hello'' ''09:00''))"
  using copy_demo_hyps
    copyFile_copies [of demo "''notes.txt''" "[''home'', ''notes.txt'']" "''hello''" "''09:00''"
      "''sub/a.txt''" "[''home'', ''sub'', ''a.txt'']" 6]
  by blast

text \<open>
  Claim C5 as stated fails where the source is the activity log: the copy succeeds and
  the record of the copy is then appended to the source.
\<close>

theorem copy_of_log_changes_source_counterexample:
  "(case copyFile 40 ''activity_log.txt'' ''backup.txt'' demo of
      None \<Rightarrow> False
    | Some r \<Rightarrow> fst r \<and> contents [''home'', ''activity_log.txt''] (snd r)
                        \<noteq> contents [''home'', ''activity_log.txt''] demo)"
proof -
  have i: "fst (fopen ''activity_log.txt'' RB demo) = Some [''home'', ''activity_log.txt'']"
    by code_simp
  have out: "fst (fopen ''backup.txt'' WB demo) = Some [''home'', ''backup.txt'']"
    by code_simp
  have fuel: "length (contents [''home'', ''activity_log.txt''] demo) < 40"
    by code_simp
  have loc: "log_loc demo = [''home'', ''activity_log.txt'']" and ready: "log_ready demo"
    by code_simp+
  from copyFile_run [OF i out fuel] obtain s3 where
    run: "copyFile 40 ''activity_log.txt'' ''backup.txt'' demo
        = Some (True, logAction (''Copied file: '' @ ''activity_log.txt'' @ '' -> '' @ ''backup.txt'') s3)"
    and fr: "cwd s3 = cwd demo" "\<And>p. is_dir (fs s3) p = is_dir (fs demo) p"
      "\<And>p. p \<noteq> [''home'', ''backup.txt''] \<Longrightarrow> look (fs s3) p = look (fs demo) p"
      "\<And>p. is_node (fs s3) p = is_node (fs demo) p"
    by blast
  define s' where "s' = logAction (''Copied file: '' @ ''activity_log.txt'' @ '' -> '' @ ''backup.txt'') s3"
  have "log_ready s3" using ready fr by (simp add: log_ready_def log_loc_def)
  then have app: "log_text s' = log_text s3
      @ record_line s3 (''Copied file: '' @ ''activity_log.txt'' @ '' -> '' @ ''backup.txt'')"
    unfolding s'_def by (rule logAction_text)
  have l3: "log_loc s3 = [''home'', ''activity_log.txt'']" "log_loc s' = [''home'', ''activity_log.txt'']"
    using fr(1) loc by (simp_all add: log_loc_def s'_def)
  have "look (fs s3) [''home'', ''activity_log.txt''] = look (fs demo) [''home'', ''activity_log.txt'']"
    by (rule fr(3)) simp
  then have "log_text s3 = contents [''home'', ''activity_log.txt''] demo"
    by (simp add: log_text_def l3 contents_def)
  with app have "contents [''home'', ''activity_log.txt''] s'
      \<noteq> contents [''home'', ''activity_log.txt''] demo"
    by (simp add: log_text_def l3 record_line_def)
  then show ?thesis
    by (simp add: run s'_def)
qed

text \<open>
  Copying a file onto itself also succeeds, and leaves the file empty: the destination
  is truncated before the first read.
\<close>

lemma copy_onto_itself_empties:
  "contents [''home'', ''notes.txt''] demo = ''hello''
   \<and> (case copyFile 6 ''notes.txt'' ''./notes.txt'' demo of
        None \<Rightarrow> False
      | Some r \<Rightarrow> fst r \<and> contents [''home'', ''notes.txt''] (snd r) = [])"
proof -
  have i: "fst (fopen ''notes.txt'' RB demo) = Some [''home'', ''notes.txt'']"
    by code_simp
  have out: "fst (fopen ''./notes.txt'' WB demo) = Some [''home'', ''notes.txt'']"
    by code_simp
  have c: "contents [''home'', ''notes.txt''] demo = ''hello''"
    by code_simp
  then have fuel: "length (contents [''home'', ''notes.txt''] demo) < 6"
    by simp
  have loc: "log_loc demo = [''home'', ''activity_log.txt'']"
    by code_simp
  from copyFile_run [OF i out fuel] obtain s3 where
    run: "copyFile 6 ''notes.txt'' ''./notes.txt'' demo
        = Some (True, logAction (''Copied file: '' @ ''notes.txt'' @ '' -> '' @ ''./notes.txt'') s3)"
    and fr: "cwd s3 = cwd demo" "contents [''home'', ''notes.txt''] s3 = []"
    by blast
  have "log_loc s3 = [''home'', ''activity_log.txt'']"
    using fr loc by (simp add: log_loc_def)
  then have "look (fs (logAction (''Copied file: '' @ ''notes.txt'' @ '' -> '' @ ''./notes.txt'') s3))
      [''home'', ''notes.txt''] = look (fs s3) [''home'', ''notes.txt'']"
    by (intro logAction_look) simp
  with fr c show ?thesis
    by (simp add: run contents_def)
qed

text \<open>
  The result of \<^verbatim>\<open>fwrite\<close> is not looked at: where the environment lets only two
  bytes of the write through, the copy still reports success, and the destination holds
  two of the five bytes of the source.
\<close>

lemma short_write_reported_as_success:
  "contents [''home'', ''notes.txt''] demo = ''hello''
   \<and> (case copyFile 6 ''notes.txt'' ''copy.txt'' (demo\<lparr>io := [4096, 2]\<rparr>) of
        None \<Rightarrow> False
      | Some r \<Rightarrow> fst r \<and> contents [''home'', ''copy.txt''] (snd r) = ''he''
                  \<and> \<not> complete (trace (snd r)))"
  by code_simp

section \<open>The log as a file\<close>
















section \<open>Paths of directory entries\<close>

lemma split_path_nonempty: "split_path p \<noteq> []"
  by (induction p) (auto split: list.splits)

lemma split_path_append: "split_path (a @ CHR ''/'' # b) = split_path a @ split_path b"
proof (induction a)
  case Nil
  then show ?case by simp
next
  case (Cons c a)
  obtain w ws where w: "split_path a = w # ws"
    using split_path_nonempty [of a] by (cases "split_path a") auto
  with Cons show ?case by simp
qed

lemma split_path_name: "CHR ''/'' \<notin> set n \<Longrightarrow> split_path n = [n]"
  by (induction n) auto

lemma walk_append:
  "walk f cur (cs @ ds) = (case walk f cur cs of None \<Rightarrow> None | Some q \<Rightarrow> walk f q ds)"
  by (induction cs arbitrary: cur) simp_all

lemma walk_name:
  "valid_name n \<Longrightarrow> walk f q [n] = (if is_dir f q then Some (q @ [n]) else None)"
  by (simp add: valid_name_def)

lemma walk_from_non_dir: "\<not> is_dir f q \<Longrightarrow> ds \<noteq> [] \<Longrightarrow> walk f q ds = None"
  by (cases ds) simp_all

lemma resolve_below:
  "p \<noteq> [] \<Longrightarrow>
     resolve s (p @ CHR ''/'' # rest) =
       (case resolve s p of None \<Rightarrow> None | Some q \<Rightarrow> walk (fs s) q (split_path rest))"
  by (simp add: resolve_def split_path_append walk_append)

lemma resolve_child:
  "p \<noteq> [] \<Longrightarrow> valid_name n \<Longrightarrow>
     resolve s (p @ CHR ''/'' # n) =
       (case resolve s p of
          None \<Rightarrow> None
        | Some q \<Rightarrow> if is_dir (fs s) q then Some (q @ [n]) else None)"
  by (simp add: resolve_below split_path_name walk_name valid_name_def split: option.splits)

lemma walk_shrink:
  "(\<And>x. is_dir f' x \<Longrightarrow> is_dir f x) \<Longrightarrow> walk f' cur cs = None \<or> walk f' cur cs = walk f cur cs"
  by (induction cs arbitrary: cur) auto

lemma resolve_shrink:
  "(\<And>x. is_dir (fs s') x \<Longrightarrow> is_dir (fs s) x) \<Longrightarrow> cwd s' = cwd s \<Longrightarrow>
     resolve s' p = None \<or> resolve s' p = resolve s p"
  using walk_shrink [of "fs s'" "fs s"] by (auto simp add: resolve_def)

lemma resolve_same:
  "(\<And>x. is_dir (fs s') x = is_dir (fs s) x) \<Longrightarrow> cwd s' = cwd s \<Longrightarrow> resolve s' p = resolve s p"
  using walk_cong [of "fs s'" "fs s"] by (simp add: resolve_def)

lemma names_in_named:
  "named f \<Longrightarrow> n \<in> set (names_in f q) \<Longrightarrow> valid_name n \<and> look f (q @ [n]) \<noteq> None"
proof -
  assume nm: "named f" and n: "n \<in> set (names_in f q)"
  then obtain p e where pe: "(p, e) \<in> set f" "p \<noteq> []" "butlast p = q" "n = last p"
    by (auto simp add: names_in_def)
  then have "q @ [n] = p" using append_butlast_last_id [of p] by simp
  moreover from pe have "map_of f p \<noteq> None"
    by (metis map_of_eq_None_iff fst_conv image_iff)
  moreover from nm pe have "valid_name n"
    by (auto simp add: named_def list_all_iff)
  ultimately show ?thesis by (auto simp add: look_def)
qed

lemma stat_of_child_non_dir:
  assumes "p \<noteq> []" "\<not> (case stat_of s p of Some (Dir r) \<Rightarrow> True | _ \<Rightarrow> False)"
  shows "stat_of s (p @ CHR ''/'' # rest) = None"
proof (cases "resolve s p")
  case None
  with assms(1) show ?thesis by (simp add: stat_of_def resolve_below)
next
  case (Some q)
  with assms(2) have "\<not> is_dir (fs s) q"
    by (auto simp add: stat_of_def is_dir_def split: option.splits entry.splits)
  then have "walk (fs s) q (split_path rest) = None"
    by (rule walk_from_non_dir) (rule split_path_nonempty)
  with Some assms(1) show ?thesis by (simp add: stat_of_def resolve_below)
qed

section \<open>The calls of the recursive operations\<close>

lemma isDirectory_state: "snd (isDirectory p s) = emit (SysStat p) (stat_of s p \<noteq> None) s"
  by (simp add: isDirectory_def stat_def split: option.splits entry.splits)

lemma mode_test: "(st_mode e AND S_IFDIR \<noteq> 0) = taken_for_dir e"
  by (simp add: st_mode_def S_IFDIR_def taken_for_dir_def split: entry.splits kind.splits)

lemma isDirectory_fst_stat:
  "fst (isDirectory p s) = (case stat_of s p of Some e \<Rightarrow> taken_for_dir e | None \<Rightarrow> False)"
  by (simp add: isDirectory_def stat_def mode_test split: option.splits)

lemma isDirectory_fst:
  "fst (isDirectory p s)
     = (\<exists>q e. resolve s p = Some q \<and> look (fs s) q = Some e \<and> taken_for_dir e)"
  by (auto simp add: isDirectory_fst_stat stat_of_def split: option.splits)

lemma isDirectory_dirlike:
  "fst (isDirectory p s) = (\<exists>q. resolve s p = Some q \<and> dirlike (fs s) q)"
  by (auto simp add: isDirectory_fst dirlike_def split: option.splits)

lemma dirlike_dir: "is_dir f p \<Longrightarrow> dirlike f p"
  by (auto simp add: is_dir_def dirlike_def taken_for_dir_def split: option.splits entry.splits)

lemma dirlike_readable: "look f p = Some (Dir True) \<Longrightarrow> dirlike f p"
  by (simp add: dirlike_def taken_for_dir_def)

lemma dirlike_update_file:
  "q \<noteq> [] \<Longrightarrow> dirlike (AList.update q (File c m) f) p = (dirlike f p \<and> p \<noteq> q)"
  by (simp add: dirlike_def look_update taken_for_dir_def)

lemma dirlike_cases: "dirlike f p \<Longrightarrow> is_dir f p \<or> is_node f p"
  by (auto simp add: is_dir_def is_node_def dirlike_def taken_for_dir_def
      split: option.splits entry.splits)

lemma isDirectory_is_dir:
  "resolve s p = Some q \<Longrightarrow> is_dir (fs s) q \<Longrightarrow> fst (isDirectory p s)"
  by (auto simp add: isDirectory_fst is_dir_def taken_for_dir_def split: option.splits entry.splits)

lemma isDirectory_file:
  "resolve s p = Some q \<Longrightarrow> look (fs s) q = Some (File c m) \<Longrightarrow> \<not> fst (isDirectory p s)"
  by (simp add: isDirectory_fst taken_for_dir_def)


lemma opendir_fst:
  "fst (opendir p s) = Some names \<Longrightarrow>
     \<exists>q. resolve s p = Some q \<and> look (fs s) q = Some (Dir True)
        \<and> names = ''.'' # ''..'' # names_in (fs s) q"
  by (auto simp add: opendir_def split: option.splits if_splits)






lemma searchFile_Suc:
  "searchFile (Suc k) pattern path s =
     (case fst (opendir path s) of
        None \<Rightarrow> Some (snd (opendir path s))
      | Some names \<Rightarrow>
          (case search_loop k pattern path names (snd (opendir path s)) of
             None \<Rightarrow> None
           | Some s2 \<Rightarrow> Some (logAction (''Searched for: '' @ pattern @ '' in '' @ path) s2)))"
  by (cases "opendir path s") (auto split: option.splits)

lemma search_loop_Cons:
  "search_loop k pattern path (name # rest) s =
     (if name = ''.'' \<or> name = ''..'' then search_loop k pattern path rest s
      else if fst (isDirectory (path @ CHR ''/'' # name)
                     (if find_sub name pattern \<noteq> None then print (path @ CHR ''/'' # name @ nl) s else s))
      then (case searchFile k pattern (path @ CHR ''/'' # name)
                   (snd (isDirectory (path @ CHR ''/'' # name)
                     (if find_sub name pattern \<noteq> None then print (path @ CHR ''/'' # name @ nl) s else s))) of
              None \<Rightarrow> None
            | Some s2 \<Rightarrow> search_loop k pattern path rest s2)
      else search_loop k pattern path rest
             (snd (isDirectory (path @ CHR ''/'' # name)
                (if find_sub name pattern \<noteq> None then print (path @ CHR ''/'' # name @ nl) s else s))))"
  by (cases "isDirectory (path @ CHR ''/'' # name)
                     (if find_sub name pattern \<noteq> None then print (path @ CHR ''/'' # name @ nl) s else s)")
     (auto split: option.splits)

declare removeRecursive.simps(2) [simp del] remove_loop.simps(2) [simp del]
  searchFile.simps(2) [simp del] search_loop.simps(2) [simp del]

section \<open>What a recursive delete leaves alone\<close>






lemma named_update:
  "named f \<Longrightarrow> q \<noteq> [] \<Longrightarrow> valid_name (last q) \<Longrightarrow> named (AList.update q e f)"
  by (induction f) (auto simp add: named_def)




lemma valid_log_name: "valid_name log_name"
  by (simp add: valid_name_def log_name_def)






section \<open>Recursive delete returns\<close>

lemma below_self_child: "below q (q @ [n])"
  by (simp add: below_def)

lemma below_child: "below (q @ [n]) p \<Longrightarrow> below q p"
proof -
  assume "below (q @ [n]) p"
  then have "take (Suc (length q)) p = q @ [n]" by (simp add: below_def)
  then have "take (length q) (take (Suc (length q)) p) = take (length q) (q @ [n])" by simp
  then show ?thesis by (simp add: below_def min_def)
qed

lemma fits_child:
  assumes "fits s0 q (Suc k)" "shrinks s0 s"
  shows "fits s (q @ [n]) k"
  unfolding fits_def
proof (intro allI impI)
  fix p
  assume a: "(look (fs s) p \<noteq> None \<or> p = log_loc s) \<and> below (q @ [n]) p"
  from assms(2) have "look (fs s) p \<noteq> None \<longrightarrow> look (fs s0) p \<noteq> None \<or> p = log_loc s0"
    and "log_loc s = log_loc s0"
    by (simp_all add: shrinks_def log_loc_def)
  with a have "(look (fs s0) p \<noteq> None \<or> p = log_loc s0) \<and> below q p"
    by (auto dest: below_child)
  with assms(1) have "length p < length q + Suc k" by (simp add: fits_def)
  then show "length p < length (q @ [n]) + k" by simp
qed

lemma fuel_ok_fits: "fuel_ok k s \<Longrightarrow> fits s q k"
  unfolding fits_def
proof (intro allI impI)
  fix p
  assume f: "fuel_ok k s" and a: "(look (fs s) p \<noteq> None \<or> p = log_loc s) \<and> below q p"
  have "length p < k"
  proof (cases "p = log_loc s")
    case True
    with f show ?thesis by (simp add: fuel_ok_def log_loc_def)
  next
    case False
    with a have l: "look (fs s) p \<noteq> None" by simp
    show ?thesis
    proof (cases "p = []")
      case True
      with f show ?thesis by (simp add: fuel_ok_def)
    next
      case False
      with l have "map_of (fs s) p \<noteq> None" by (simp add: look_def)
      then have "p \<in> fst ` set (fs s)" by (simp add: map_of_eq_None_iff)
      with f show ?thesis by (auto simp add: fuel_ok_def list_all_iff)
    qed
  qed
  then show "length p < length q + k" by simp
qed

lemma fuel_ok_pos: "fuel_ok k s \<Longrightarrow> 0 < k"
  by (simp add: fuel_ok_def)

lemma resolve_child_shrunk:
  assumes sh: "shrinks s0 s" and q: "resolve s0 path = Some q" and ne: "path \<noteq> []"
    and n: "valid_name n" and x: "resolve s (path @ CHR ''/'' # n) = Some x"
  shows "x = q @ [n]"
proof -
  from sh have "resolve s path = None \<or> resolve s path = resolve s0 path"
    by (intro resolve_shrink) (simp_all add: shrinks_def)
  with x q ne n show ?thesis
    by (auto simp add: resolve_child split: option.splits if_splits)
qed




section \<open>The records of a recursive delete\<close>






lemma new_trace_append: "trace s' = trace s @ tr \<Longrightarrow> new_trace s s' = tr"
  by (simp add: new_trace_def)
















section \<open>Recursive search\<close>

lemma look_keys: "look f p \<noteq> None \<longleftrightarrow> p = [] \<or> p \<in> set (map fst f)"
proof -
  have "(map_of f p = None) = (p \<notin> fst ` set f)" by (rule map_of_eq_None_iff)
  then have "(map_of f p \<noteq> None) = (p \<in> fst ` set f)" by auto
  then show ?thesis by (cases "p = []") (simp_all add: look_def del: not_None_eq)
qed

lemma log_ready_same:
  "cwd s' = cwd s \<Longrightarrow> (\<And>p. is_dir (fs s') p = is_dir (fs s) p)
     \<Longrightarrow> (\<And>p. is_node (fs s') p = is_node (fs s) p) \<Longrightarrow> log_ready s' = log_ready s"
  by (simp add: log_ready_def log_loc_def)

lemma calm_refl: "calm s s"
  by (simp add: calm_def)

lemma calm_same: "fs s' = fs s \<Longrightarrow> cwd s' = cwd s \<Longrightarrow> now s' = now s \<Longrightarrow> calm s s'"
  by (simp add: calm_def)

lemma calm_trans:
  assumes "calm s s1" "calm s1 s2"
  shows "calm s s2"
proof -
  from assms(1) have c1: "cwd s1 = cwd s" "now s1 = now s"
    and d1: "\<And>p. is_dir (fs s1) p = is_dir (fs s) p"
    and e1: "\<And>p. is_node (fs s1) p = is_node (fs s) p"
    and g1: "\<And>p. dirlike (fs s1) p = dirlike (fs s) p"
    and l1: "\<And>p. p \<noteq> log_loc s \<Longrightarrow> look (fs s1) p = look (fs s) p"
    and k1: "look (fs s) (log_loc s) \<noteq> None \<or> \<not> log_ready s \<Longrightarrow> map fst (fs s1) = map fst (fs s)"
    and n1: "named (fs s) \<longrightarrow> named (fs s1)"
    and r1: "\<And>p. (look (fs s1) p = Some (Dir True)) = (look (fs s) p = Some (Dir True))"
    by (simp_all add: calm_def)
  have ll: "log_loc s1 = log_loc s" using c1 by (simp add: log_loc_def)
  from assms(2) ll have c2: "cwd s2 = cwd s1" "now s2 = now s1"
    and d2: "\<And>p. is_dir (fs s2) p = is_dir (fs s1) p"
    and e2: "\<And>p. is_node (fs s2) p = is_node (fs s1) p"
    and g2: "\<And>p. dirlike (fs s2) p = dirlike (fs s1) p"
    and l2: "\<And>p. p \<noteq> log_loc s \<Longrightarrow> look (fs s2) p = look (fs s1) p"
    and k2: "look (fs s1) (log_loc s) \<noteq> None \<or> \<not> log_ready s1 \<Longrightarrow> map fst (fs s2) = map fst (fs s1)"
    and n2: "named (fs s1) \<longrightarrow> named (fs s2)"
    and r2: "\<And>p. (look (fs s2) p = Some (Dir True)) = (look (fs s1) p = Some (Dir True))"
    by (simp_all add: calm_def)
  have r: "log_ready s1 = log_ready s" by (rule log_ready_same) (simp_all add: c1 d1 e1)
  have "map fst (fs s2) = map fst (fs s)" if a: "look (fs s) (log_loc s) \<noteq> None \<or> \<not> log_ready s"
  proof -
    from a have e1: "map fst (fs s1) = map fst (fs s)" by (rule k1)
    have "look (fs s1) (log_loc s) \<noteq> None \<or> \<not> log_ready s1"
      using a e1 r by (simp add: look_keys del: not_None_eq)
    from k2 [OF this] e1 show ?thesis by simp
  qed
  with c1 c2 d1 d2 e1 e2 g1 g2 l1 l2 n1 n2 r1 r2 show ?thesis
    unfolding calm_def by simp
qed

lemma calm_shrinks: "calm s s' \<Longrightarrow> shrinks s s'"
  unfolding calm_def shrinks_def by metis

lemma calm_emit: "calm s (emit c ok s)"
  by (simp add: calm_same)

lemma calm_print: "calm s (print t s)"
  by (simp add: calm_same)

lemma calm_logAction: "calm s (logAction a s)"
proof (cases "log_ready s")
  case False
  then show ?thesis by (simp add: logAction_not_ready calm_emit)
next
  case True
  let ?e = "File (log_text s @ record_line s a) (now s)"
  have n: "named (fs s) \<longrightarrow> named (AList.update (log_loc s) ?e (fs s))"
    by (simp add: named_update log_loc_def valid_log_name)
  have k: "map fst (AList.update (log_loc s) ?e (fs s)) = map fst (fs s)"
    if "look (fs s) (log_loc s) \<noteq> None"
    using that look_keys [of "fs s" "log_loc s"] by (simp add: update_keys del: not_None_eq)
  have nd: "look (fs s) (log_loc s) \<noteq> Some (Dir True)"
    using True by (auto simp add: log_ready_def is_dir_def)
  have nl: "\<not> dirlike (fs s) (log_loc s)"
    using True dirlike_cases [of "fs s" "log_loc s"] by (auto simp add: log_ready_def)
  from True n k nd nl show ?thesis
    by (auto simp add: logAction_ready calm_def is_dir_update_file is_node_update_file
        dirlike_update_file look_update log_ready_def)
qed

lemma calm_isDirectory: "calm s (snd (isDirectory p s))"
  by (simp add: isDirectory_state calm_emit)

lemma calm_opendir: "calm s (snd (opendir p s))"
  by (simp add: opendir_state calm_emit)

lemma search_loop_calm:
  assumes IH: "\<And>p s s'. searchFile k pat p s = Some s' \<Longrightarrow> calm s s'"
  shows "search_loop k pat path names s = Some s' \<Longrightarrow> calm s s'"
proof (induction names arbitrary: s)
  case Nil
  then show ?case by (simp add: calm_refl)
next
  case (Cons name rest)
  show ?case
  proof (cases "name = ''.'' \<or> name = ''..''")
    case True
    with Cons show ?thesis by (simp add: search_loop_Cons)
  next
    case False
    let ?s0 = "if find_sub name pat \<noteq> None then print (path @ CHR ''/'' # name @ nl) s else s"
    let ?s1 = "snd (isDirectory (path @ CHR ''/'' # name) ?s0)"
    have c0: "calm s ?s0" by (simp add: calm_print calm_refl)
    have c1: "calm s ?s1" using c0 calm_isDirectory by (rule calm_trans)
    show ?thesis
    proof (cases "fst (isDirectory (path @ CHR ''/'' # name) ?s0)")
      case dir: True
      with False Cons.prems obtain s2 where
        s2: "searchFile k pat (path @ CHR ''/'' # name) ?s1 = Some s2"
        and r: "search_loop k pat path rest s2 = Some s'"
        by (simp add: search_loop_Cons split: option.splits)
      from c1 IH [OF s2] have "calm s s2" by (rule calm_trans)
      then show ?thesis using Cons.IH [OF r] by (rule calm_trans)
    next
      case nodir: False
      with False Cons.prems have r: "search_loop k pat path rest ?s1 = Some s'"
        by (simp add: search_loop_Cons)
      from c1 Cons.IH [OF r] show ?thesis by (rule calm_trans)
    qed
  qed
qed

lemma searchFile_calm: "searchFile k pat path s = Some s' \<Longrightarrow> calm s s'"
proof (induction k arbitrary: path s s')
  case 0
  then show ?case by simp
next
  case (Suc k)
  show ?case
  proof (cases "fst (opendir path s)")
    case None
    with Suc.prems show ?thesis by (auto simp add: searchFile_Suc calm_opendir)
  next
    case (Some names)
    with Suc.prems obtain s2 where
      l: "search_loop k pat path names (snd (opendir path s)) = Some s2"
      and e: "s' = logAction (''Searched for: '' @ pat @ '' in '' @ path) s2"
      by (auto simp add: searchFile_Suc split: option.splits)
    have "calm (snd (opendir path s)) s2"
      using Suc.IH l by (rule search_loop_calm)
    with calm_opendir have "calm s s2" by (rule calm_trans)
    with e calm_logAction [of s2] show ?thesis by (auto intro: calm_trans)
  qed
qed

subsection \<open>Search returns\<close>

lemma search_loop_total:
  assumes IH: "\<And>p s. named (fs s) \<Longrightarrow> 0 < k \<Longrightarrow> (\<And>x. resolve s p = Some x \<Longrightarrow> fits s x k)
             \<Longrightarrow> \<exists>s'. searchFile k pat p s = Some s'"
    and s0: "named (fs s0)" "resolve s0 path = Some q" "fits s0 q (Suc k)" "path \<noteq> []"
  shows "calm s0 s \<Longrightarrow> \<forall>n \<in> set names. n = ''.'' \<or> n = ''..'' \<or> valid_name n \<Longrightarrow>
         0 < k \<or> (\<forall>n \<in> set names. n = ''.'' \<or> n = ''..'') \<Longrightarrow>
         \<exists>s'. search_loop k pat path names s = Some s'"
proof (induction names arbitrary: s)
  case Nil
  then show ?case by simp
next
  case (Cons name rest)
  show ?case
  proof (cases "name = ''.'' \<or> name = ''..''")
    case True
    with Cons.prems have "\<exists>s'. search_loop k pat path rest s = Some s'"
      by (intro Cons.IH) auto
    with True show ?thesis by (simp add: search_loop_Cons)
  next
    case False
    with Cons.prems have v: "valid_name name" and k: "0 < k" by auto
    let ?s0 = "if find_sub name pat \<noteq> None then print (path @ CHR ''/'' # name @ nl) s else s"
    let ?s1 = "snd (isDirectory (path @ CHR ''/'' # name) ?s0)"
    have "calm s ?s0" by (simp add: calm_print calm_refl)
    then have "calm s ?s1" using calm_isDirectory by (rule calm_trans)
    with Cons.prems(1) have c1: "calm s0 ?s1" by (rule calm_trans)
    then have sh1: "shrinks s0 ?s1" by (rule calm_shrinks)
    have nm: "named (fs ?s1)" using c1 s0(1) by (simp add: calm_def)
    have rest_ok: "\<exists>s'. search_loop k pat path rest t = Some s'" if "calm s0 t" for t
      using that Cons.prems k by (intro Cons.IH) auto
    show ?thesis
    proof (cases "fst (isDirectory (path @ CHR ''/'' # name) ?s0)")
      case nodir: False
      from rest_ok [OF c1] nodir False show ?thesis by (simp add: search_loop_Cons)
    next
      case dir: True
      have "\<exists>s2. searchFile k pat (path @ CHR ''/'' # name) ?s1 = Some s2"
      proof (rule IH [OF nm k])
        fix x
        assume "resolve ?s1 (path @ CHR ''/'' # name) = Some x"
        from resolve_child_shrunk [OF sh1 s0(2) s0(4) v this]
        have "x = q @ [name]" .
        with fits_child [OF s0(3) sh1] show "fits ?s1 x k" by simp
      qed
      then obtain s2 where s2: "searchFile k pat (path @ CHR ''/'' # name) ?s1 = Some s2" by blast
      from c1 searchFile_calm [OF s2] have "calm s0 s2" by (rule calm_trans)
      from rest_ok [OF this] dir False s2 show ?thesis by (simp add: search_loop_Cons)
    qed
  qed
qed

lemma searchFile_total:
  "named (fs s) \<Longrightarrow> 0 < k \<Longrightarrow> (\<And>x. resolve s path = Some x \<Longrightarrow> fits s x k) \<Longrightarrow>
     \<exists>s'. searchFile k pat path s = Some s'"
proof (induction k arbitrary: path s)
  case 0
  then show ?case by simp
next
  case (Suc k)
  show ?case
  proof (cases "fst (opendir path s)")
    case None
    then show ?thesis by (simp add: searchFile_Suc)
  next
    case (Some names)
    from opendir_fst [OF Some] obtain q where
      q: "resolve s path = Some q" "look (fs s) q = Some (Dir True)"
      and names: "names = ''.'' # ''..'' # names_in (fs s) q"
      by blast
    have ne: "path \<noteq> []" using q(1) by (auto simp add: resolve_def)
    have valid: "\<forall>n \<in> set names. n = ''.'' \<or> n = ''..'' \<or> valid_name n"
      using names names_in_named [OF Suc.prems(1), of _ q] by auto
    have fit: "fits s q (Suc k)" using Suc.prems(3) q by simp
    have pos: "0 < k \<or> (\<forall>n \<in> set names. n = ''.'' \<or> n = ''..'')"
    proof (cases "names_in (fs s) q")
      case Nil
      with names show ?thesis by simp
    next
      case (Cons n ns)
      then have "n \<in> set (names_in (fs s) q)" by simp
      from names_in_named [OF Suc.prems(1) this] have "look (fs s) (q @ [n]) \<noteq> None" by simp
      with fit have "length (q @ [n]) < length q + Suc k"
        unfolding fits_def using below_self_child by blast
      then show ?thesis by simp
    qed
    from search_loop_total [OF Suc.IH Suc.prems(1) q(1) fit ne calm_opendir valid pos]
    obtain s2 where "search_loop k pat path names (snd (opendir path s)) = Some s2" by blast
    with Some show ?thesis by (simp add: searchFile_Suc)
  qed
qed

lemma searchFile_returns:
  "named (fs s) \<Longrightarrow> fuel_ok fuel s \<Longrightarrow> \<exists>s'. searchFile fuel pat path s = Some s'"
  by (rule searchFile_total) (simp_all add: fuel_ok_pos fuel_ok_fits)

subsection \<open>The records of a search\<close>

lemma calm_log_ready: "calm s s' \<Longrightarrow> log_ready s' = log_ready s"
  by (rule log_ready_same) (simp_all add: calm_def)







lemma search_demo_hyps: "named (fs demo) \<and> fuel_ok 5 demo \<and> log_ready demo \<and> settled demo"
  by code_simp



subsection \<open>What a search prints\<close>

lemma find_sub_contains: "(find_sub n pat \<noteq> None) = contains n pat"
proof
  show "find_sub n pat \<noteq> None \<Longrightarrow> contains n pat"
  proof (induction n)
    case Nil
    then have "pat = []" by (simp split: if_splits)
    then show ?case by (simp add: contains_def)
  next
    case (Cons c cs)
    show ?case
    proof (cases "take (length pat) (c # cs) = pat")
      case True
      then have "c # cs = [] @ pat @ drop (length pat) (c # cs)"
        by (metis append_Nil append_take_drop_id)
      then show ?thesis unfolding contains_def by blast
    next
      case False
      with Cons.prems have "find_sub cs pat \<noteq> None" by (simp split: if_splits)
      from Cons.IH [OF this] obtain a b where "cs = a @ pat @ b"
        by (auto simp add: contains_def)
      then have "c # cs = (c # a) @ pat @ b" by simp
      then show ?thesis unfolding contains_def by blast
    qed
  qed
next
  assume "contains n pat"
  then obtain a b where n: "n = a @ pat @ b" by (auto simp add: contains_def)
  show "find_sub n pat \<noteq> None"
    unfolding n
  proof (induction a)
    case Nil
    have t: "take (length pat) (pat @ b) = pat" by simp
    show ?case
    proof (cases "pat @ b")
      case Nil
      then show ?thesis by simp
    next
      case (Cons x xs)
      with t show ?thesis by simp
    qed
  next
    case (Cons c a)
    then show ?case by auto
  qed
qed

lemma names_in_keys:
  "map fst f' = map fst f \<Longrightarrow> names_in f' q = names_in f q"
proof -
  have "names_in g q = map last (filter (\<lambda>k. k \<noteq> [] \<and> butlast k = q) (map fst g))" for g
    by (simp add: names_in_def filter_map comp_def)
  then show "map fst f' = map fst f \<Longrightarrow> names_in f' q = names_in f q" by simp
qed

lemma names_in_iff: "n \<in> set (names_in f q) \<longleftrightarrow> look f (q @ [n]) \<noteq> None"
proof
  assume "n \<in> set (names_in f q)"
  then obtain p e where pe: "(p, e) \<in> set f" "p \<noteq> []" "butlast p = q" "n = last p"
    by (auto simp add: names_in_def)
  then have "q @ [n] = p" using append_butlast_last_id [of p] by simp
  with pe(1) show "look f (q @ [n]) \<noteq> None"
    using look_keys [of f "q @ [n]"] by force
next
  assume "look f (q @ [n]) \<noteq> None"
  then have "q @ [n] \<in> set (map fst f)" using look_keys [of f "q @ [n]"] by simp
  then obtain e where "(q @ [n], e) \<in> set f" by auto
  then have "(q @ [n], e) \<in> set (filter (\<lambda>qe. fst qe \<noteq> [] \<and> butlast (fst qe) = q) f)"
    by simp
  then have "last (fst (q @ [n], e))
      \<in> (\<lambda>qe. last (fst qe)) ` set (filter (\<lambda>qe. fst qe \<noteq> [] \<and> butlast (fst qe) = q) f)"
    by (rule imageI)
  then show "n \<in> set (names_in f q)" by (simp add: names_in_def)
qed

lemma calm_settled: "calm s s' \<Longrightarrow> settled s \<Longrightarrow> settled s'"
proof -
  assume c: "calm s s'" and st: "settled s"
  then have k: "map fst (fs s') = map fst (fs s)" unfolding calm_def settled_def by blast
  have "log_loc s' = log_loc s" using c by (simp add: calm_def log_loc_def)
  moreover have "log_ready s' = log_ready s" using c by (rule calm_log_ready)
  ultimately show "settled s'"
    using st k look_keys [of "fs s'" "log_loc s"] look_keys [of "fs s" "log_loc s"]
    by (simp add: settled_def del: not_None_eq)
qed

lemma calm_reach:
  assumes "calm s s'" "settled s"
  shows "reach (fs s') q ns = reach (fs s) q ns"
proof -
  from assms have k: "map fst (fs s') = map fst (fs s)" unfolding calm_def settled_def by blast
  then have "\<And>p. (look (fs s') p \<noteq> None) = (look (fs s) p \<noteq> None)"
    by (simp add: look_keys del: not_None_eq)
  moreover from assms(1) have "\<And>p. (look (fs s') p = Some (Dir True)) = (look (fs s) p = Some (Dir True))"
    by (simp add: calm_def)
  ultimately show ?thesis by (simp add: reach_def del: not_None_eq)
qed

lemma calm_hits: "calm s s' \<Longrightarrow> settled s \<Longrightarrow> hits (fs s') q root pat = hits (fs s) q root pat"
  by (simp add: hits_def calm_reach)

lemma hits_unreadable: "look f q \<noteq> Some (Dir True) \<Longrightarrow> hits f q root pat = {}"
proof -
  assume a: "look f q \<noteq> Some (Dir True)"
  have "\<not> reach f q ns" for ns
  proof
    assume r: "reach f q ns"
    then have "0 < length ns" by (simp add: reach_def)
    with r have "look f (q @ take 0 ns) = Some (Dir True)"
      unfolding reach_def by blast
    with a show False by simp
  qed
  then show ?thesis by (simp add: hits_def)
qed

lemma reach_Cons:
  "reach f q (n # ns) =
     (look f q = Some (Dir True)
      \<and> (if ns = [] then look f (q @ [n]) \<noteq> None else reach f (q @ [n]) ns))"
proof -
  have "(\<forall>i < Suc (length ns). look f (q @ take i (n # ns)) = Some (Dir True))
      = (look f q = Some (Dir True) \<and> (\<forall>j < length ns. look f ((q @ [n]) @ take j ns) = Some (Dir True)))"
    (is "?l = ?r")
  proof
    assume l: ?l
    have "look f (q @ take 0 (n # ns)) = Some (Dir True)" using l by blast
    moreover have "look f ((q @ [n]) @ take j ns) = Some (Dir True)" if "j < length ns" for j
      using l [rule_format, of "Suc j"] that by simp
    ultimately show ?r by simp
  next
    assume r: ?r
    show ?l
    proof (intro allI impI)
      fix i
      assume "i < Suc (length ns)"
      then show "look f (q @ take i (n # ns)) = Some (Dir True)"
        using r by (cases i) simp_all
    qed
  qed
  then show ?thesis
    by (cases "ns = []") (auto simp add: reach_def)
qed

lemma joined_Cons: "joined root (n # ns) = joined (root @ CHR ''/'' # n) ns"
  by (simp add: joined_def)

lemma joined_Nil: "joined root [] = root"
  by (simp add: joined_def)

text \<open>The hits below a readable directory, entry by entry.\<close>

lemma hits_readable:
  assumes "look f q = Some (Dir True)"
  shows "hits f q root pat = (\<Union>n \<in> set (names_in f q). entry_hits f q root pat n)"
proof (intro set_eqI iffI)
  fix l
  assume "l \<in> hits f q root pat"
  then obtain ns where ns: "l = joined root ns @ nl" "reach f q ns" "contains (last ns) pat"
    by (auto simp add: hits_def)
  then obtain n ns' where c: "ns = n # ns'" by (cases ns) (auto simp add: reach_def)
  show "l \<in> (\<Union>n \<in> set (names_in f q). entry_hits f q root pat n)"
  proof (cases "ns' = []")
    case True
    with ns c have "n \<in> set (names_in f q)" "contains n pat" "l = root @ CHR ''/'' # n @ nl"
      by (simp_all add: reach_Cons names_in_iff joined_def del: not_None_eq)
    then show ?thesis by (auto simp add: entry_hits_def)
  next
    case False
    with ns c have r: "reach f (q @ [n]) ns'" "contains (last ns') pat"
      "l = joined (root @ CHR ''/'' # n) ns' @ nl"
      by (simp_all add: reach_Cons joined_Cons)
    then have h: "l \<in> hits f (q @ [n]) (root @ CHR ''/'' # n) pat"
      by (auto simp add: hits_def)
    then have "look f (q @ [n]) = Some (Dir True)"
      using hits_unreadable [of f "q @ [n]"] by blast
    then have "n \<in> set (names_in f q)" by (simp add: names_in_iff)
    with h show ?thesis by (auto simp add: entry_hits_def)
  qed
next
  fix l
  assume "l \<in> (\<Union>n \<in> set (names_in f q). entry_hits f q root pat n)"
  then obtain n where n: "n \<in> set (names_in f q)" "l \<in> entry_hits f q root pat n" by blast
  from n(2) consider
    (own) "contains n pat" "l = root @ CHR ''/'' # n @ nl"
    | (deep) "l \<in> hits f (q @ [n]) (root @ CHR ''/'' # n) pat"
    by (auto simp add: entry_hits_def split: if_splits)
  then show "l \<in> hits f q root pat"
  proof cases
    case own
    from n(1) assms have "reach f q [n]"
      by (simp add: reach_Cons names_in_iff del: not_None_eq)
    moreover have "l = joined root [n] @ nl" using own by (simp add: joined_def)
    ultimately show ?thesis using own(1) unfolding hits_def by force
  next
    case deep
    then obtain ns where ns: "l = joined (root @ CHR ''/'' # n) ns @ nl"
      "reach f (q @ [n]) ns" "contains (last ns) pat"
      by (auto simp add: hits_def)
    then have ne: "ns \<noteq> []" by (simp add: reach_def)
    with ns assms have "reach f q (n # ns)" "l = joined root (n # ns) @ nl"
      "contains (last (n # ns)) pat"
      by (simp_all add: reach_Cons joined_Cons)
    then show ?thesis unfolding hits_def by blast
  qed
qed

lemma opendir_none:
  "fst (opendir p s) = None \<Longrightarrow>
     resolve s p = None \<or> (\<exists>x. resolve s p = Some x \<and> look (fs s) x \<noteq> Some (Dir True))"
  by (auto simp add: opendir_def split: option.splits if_splits)

lemma calm_resolve: "calm s s' \<Longrightarrow> resolve s' p = resolve s p"
  by (rule resolve_same) (simp_all add: calm_def)

lemma reach_valid: "named f \<Longrightarrow> reach f q ns \<Longrightarrow> list_all valid_name ns"
proof (induction ns arbitrary: q)
  case Nil
  then show ?case by simp
next
  case (Cons n ns)
  show ?case
  proof (cases "ns = []")
    case True
    with Cons.prems have "n \<in> set (names_in f q)"
      by (simp add: reach_Cons names_in_iff del: not_None_eq)
    with Cons.prems(1) True show ?thesis by (simp add: names_in_named)
  next
    case False
    with Cons.prems have r: "reach f (q @ [n]) ns" by (simp add: reach_Cons)
    then have "look f (q @ [n]) = Some (Dir True)"
      using False by (cases ns) (simp_all add: reach_Cons)
    then have "n \<in> set (names_in f q)" by (simp add: names_in_iff)
    with Cons.prems(1) Cons.IH [OF Cons.prems(1) r] show ?thesis
      by (simp add: names_in_named)
  qed
qed

lemma search_loop_out:
  assumes IH: "\<And>p t t'. settled t \<Longrightarrow> named (fs t) \<Longrightarrow> searchFile k pat p t = Some t' \<Longrightarrow>
      \<exists>out. stdout t' = stdout t @ out
        \<and> set out = (case resolve t p of None \<Rightarrow> {} | Some x \<Rightarrow> hits (fs t) x p pat)"
    and s0: "settled s0" "named (fs s0)" "resolve s0 path = Some q" "is_dir (fs s0) q" "path \<noteq> []"
  shows "calm s0 t \<Longrightarrow> \<forall>n \<in> set names. n = ''.'' \<or> n = ''..'' \<or> valid_name n \<Longrightarrow>
      search_loop k pat path names t = Some t' \<Longrightarrow>
      \<exists>out. stdout t' = stdout t @ out
        \<and> set out = (\<Union>n \<in> {n \<in> set names. n \<noteq> ''.'' \<and> n \<noteq> ''..''}. entry_hits (fs s0) q path pat n)"
proof (induction names arbitrary: t)
  case Nil
  then show ?case by simp
next
  case (Cons name rest)
  show ?case
  proof (cases "name = ''.'' \<or> name = ''..''")
    case True
    with Cons.prems have r: "search_loop k pat path rest t = Some t'"
      by (simp add: search_loop_Cons)
    from Cons.prems have "\<forall>n \<in> set rest. n = ''.'' \<or> n = ''..'' \<or> valid_name n" by simp
    from Cons.IH [OF Cons.prems(1) this r] obtain out where
      "stdout t' = stdout t @ out"
      "set out = (\<Union>n \<in> {n \<in> set rest. n \<noteq> ''.'' \<and> n \<noteq> ''..''}. entry_hits (fs s0) q path pat n)"
      by blast
    moreover have "{n \<in> set (name # rest). n \<noteq> ''.'' \<and> n \<noteq> ''..''}
        = {n \<in> set rest. n \<noteq> ''.'' \<and> n \<noteq> ''..''}"
      using True by auto
    ultimately show ?thesis by auto
  next
    case False
    with Cons.prems have v: "valid_name name" by auto
    let ?p = "path @ CHR ''/'' # name"
    define own where "own = (if find_sub name pat \<noteq> None then [?p @ nl] else [])"
    define t0 where "t0 = (if find_sub name pat \<noteq> None then print (?p @ nl) t else t)"
    define t1 where "t1 = snd (isDirectory ?p t0)"
    have loop: "search_loop k pat path (name # rest) t =
        (if fst (isDirectory ?p t0)
         then (case searchFile k pat ?p t1 of
                 None \<Rightarrow> None | Some t2 \<Rightarrow> search_loop k pat path rest t2)
         else search_loop k pat path rest t1)"
      using False by (simp add: search_loop_Cons t0_def t1_def)
    have "calm t t0" by (simp add: t0_def calm_print calm_refl)
    with Cons.prems(1) have c0: "calm s0 t0" by (rule calm_trans)
    have "calm t0 t1" unfolding t1_def by (rule calm_isDirectory)
    with c0 have c1: "calm s0 t1" by (rule calm_trans)
    have out1: "stdout t1 = stdout t @ own"
      by (simp add: t1_def t0_def own_def isDirectory_state)
    have rp: "resolve s0 ?p = Some (q @ [name])"
      using s0(3,4,5) v by (simp add: resolve_child)
    then have r0: "resolve t0 ?p = Some (q @ [name])" "resolve t1 ?p = Some (q @ [name])"
      using c0 c1 by (simp_all add: calm_resolve)
    have d0: "fst (isDirectory ?p t0) = dirlike (fs s0) (q @ [name])"
      using r0(1) c0 by (simp add: isDirectory_dirlike calm_def)
    have restv: "\<forall>n \<in> set rest. n = ''.'' \<or> n = ''..'' \<or> valid_name n"
      using Cons.prems by simp
    have sets: "{n \<in> set (name # rest). n \<noteq> ''.'' \<and> n \<noteq> ''..''}
        = insert name {n \<in> set rest. n \<noteq> ''.'' \<and> n \<noteq> ''..''}"
      using False by auto
    have own: "set own = (if contains name pat then {?p @ nl} else {})"
      by (simp add: own_def find_sub_contains del: not_None_eq)
    show ?thesis
    proof (cases "dirlike (fs s0) (q @ [name])")
      case nodir: False
      with Cons.prems(3) loop d0 have r: "search_loop k pat path rest t1 = Some t'" by simp
      from Cons.IH [OF c1 restv r] obtain out where
        o: "stdout t' = stdout t1 @ out"
        "set out = (\<Union>n \<in> {n \<in> set rest. n \<noteq> ''.'' \<and> n \<noteq> ''..''}. entry_hits (fs s0) q path pat n)"
        by blast
      from nodir have "look (fs s0) (q @ [name]) \<noteq> Some (Dir True)"
        by (auto dest: dirlike_readable)
      then have "hits (fs s0) (q @ [name]) ?p pat = {}" by (rule hits_unreadable)
      then have "entry_hits (fs s0) q path pat name = set own"
        by (simp add: entry_hits_def own)
      with o out1 sets have "stdout t' = stdout t @ (own @ out)
          \<and> set (own @ out) = (\<Union>n \<in> {n \<in> set (name # rest). n \<noteq> ''.'' \<and> n \<noteq> ''..''}.
                entry_hits (fs s0) q path pat n)"
        by simp
      then show ?thesis by blast
    next
      case dir: True
      with Cons.prems(3) loop d0 obtain t2 where
        t2: "searchFile k pat ?p t1 = Some t2"
        and r: "search_loop k pat path rest t2 = Some t'"
        by (auto split: option.splits)
      have st1: "settled t1" using c1 s0(1) by (rule calm_settled)
      have nm1: "named (fs t1)" using c1 s0(2) by (simp add: calm_def)
      from IH [OF st1 nm1 t2] r0(2) obtain out1' where
        o1: "stdout t2 = stdout t1 @ out1'" "set out1' = hits (fs t1) (q @ [name]) ?p pat"
        by auto
      have h1: "hits (fs t1) (q @ [name]) ?p pat = hits (fs s0) (q @ [name]) ?p pat"
        using c1 s0(1) by (rule calm_hits)
      from c1 searchFile_calm [OF t2] have c2: "calm s0 t2" by (rule calm_trans)
      from Cons.IH [OF c2 restv r] obtain out where
        o: "stdout t' = stdout t2 @ out"
        "set out = (\<Union>n \<in> {n \<in> set rest. n \<noteq> ''.'' \<and> n \<noteq> ''..''}. entry_hits (fs s0) q path pat n)"
        by blast
      have "entry_hits (fs s0) q path pat name = set own \<union> set out1'"
        by (simp add: entry_hits_def own o1(2) h1)
      with o o1 out1 sets have "stdout t' = stdout t @ (own @ out1' @ out)
          \<and> set (own @ out1' @ out) = (\<Union>n \<in> {n \<in> set (name # rest). n \<noteq> ''.'' \<and> n \<noteq> ''..''}.
                entry_hits (fs s0) q path pat n)"
        by (simp add: Un_assoc)
      then show ?thesis by blast
    qed
  qed
qed

lemma searchFile_out:
  "settled s \<Longrightarrow> named (fs s) \<Longrightarrow> searchFile k pat path s = Some s' \<Longrightarrow>
     \<exists>out. stdout s' = stdout s @ out
       \<and> set out = (case resolve s path of None \<Rightarrow> {} | Some x \<Rightarrow> hits (fs s) x path pat)"
proof (induction k arbitrary: path s s')
  case 0
  then show ?case by simp
next
  case (Suc k)
  let ?s1 = "snd (opendir path s)"
  show ?case
  proof (cases "fst (opendir path s)")
    case None
    with Suc.prems have "s' = ?s1" by (simp add: searchFile_Suc)
    then have "stdout s' = stdout s @ []" by (simp add: opendir_state)
    moreover from opendir_none [OF None]
    have "(case resolve s path of None \<Rightarrow> {} | Some x \<Rightarrow> hits (fs s) x path pat) = set []"
      by (auto simp add: hits_unreadable)
    ultimately show ?thesis by metis
  next
    case (Some names)
    from opendir_fst [OF Some] obtain q where
      q: "resolve s path = Some q" "look (fs s) q = Some (Dir True)"
      and names: "names = ''.'' # ''..'' # names_in (fs s) q"
      by blast
    have ne: "path \<noteq> []" using q(1) by (auto simp add: resolve_def)
    have dq: "is_dir (fs s) q" using q(2) by (simp add: is_dir_def)
    have valid: "\<forall>n \<in> set names. n = ''.'' \<or> n = ''..'' \<or> valid_name n"
      using names names_in_named [OF Suc.prems(2), of _ q] by auto
    from Some Suc.prems(3) obtain s2 where
      l: "search_loop k pat path names ?s1 = Some s2"
      and e: "s' = logAction (''Searched for: '' @ pat @ '' in '' @ path) s2"
      by (auto simp add: searchFile_Suc split: option.splits)
    from search_loop_out [OF Suc.IH Suc.prems(1,2) q(1) dq ne calm_opendir valid l]
    obtain out where o: "stdout s2 = stdout ?s1 @ out"
      "set out = (\<Union>n \<in> {n \<in> set names. n \<noteq> ''.'' \<and> n \<noteq> ''..''}. entry_hits (fs s) q path pat n)"
      by blast
    have "{n \<in> set names. n \<noteq> ''.'' \<and> n \<noteq> ''..''} = set (names_in (fs s) q)"
      using names names_in_named [OF Suc.prems(2), of _ q] by (auto simp add: valid_name_def)
    with o(2) have "set out = hits (fs s) q path pat"
      by (simp add: hits_readable [OF q(2)])
    moreover have "stdout s' = stdout s @ out"
      using o(1) by (simp add: e opendir_state)
    ultimately show ?thesis using q(1) by auto
  qed
qed

text \<open>
  Claim C4. On a table with proper names that logging will not extend, and with enough
  fuel, a search returns, and the lines it prints are exactly the paths (root text,
  then the names, each after a separator) of the entries that are reached from the root
  through readable directories and whose own name contains the pattern as a substring.
  Every name on such a path is a proper name, never \<^verbatim>\<open>.\<close> or \<^verbatim>\<open>..\<close>.
  When the root does not resolve, nothing is printed.
\<close>

theorem search_prints:
  assumes "named (fs s)" "fuel_ok fuel s" "settled s"
  shows "\<exists>s' out. searchFile fuel pat root s = Some s'
      \<and> stdout s' = stdout s @ out
      \<and> set out =
          (case resolve s root of
             None \<Rightarrow> {}
           | Some q \<Rightarrow>
               {joined root ns @ nl | ns. reach (fs s) q ns \<and> (\<exists>a b. last ns = a @ pat @ b)})
      \<and> (\<forall>q ns. reach (fs s) q ns \<longrightarrow> list_all valid_name ns)"
proof -
  from searchFile_returns [OF assms(1,2)] obtain s' where
    r: "searchFile fuel pat root s = Some s'" by blast
  from searchFile_out [OF assms(3,1) r] obtain out where
    "stdout s' = stdout s @ out"
    "set out = (case resolve s root of None \<Rightarrow> {} | Some x \<Rightarrow> hits (fs s) x root pat)"
    by blast
  moreover have "\<forall>q ns. reach (fs s) q ns \<longrightarrow> list_all valid_name ns"
    using reach_valid [OF assms(1)] by blast
  ultimately show ?thesis
    using r unfolding hits_def contains_def by blast
qed

lemma search_demo_out:
  "resolve demo ''.'' = Some [''home'']
   \<and> map_option stdout (searchFile 5 ''a.txt'' ''.'' demo)
       = Some [''./sub/a.txt'' @ nl, ''./sub/deep/a.txt.bak'' @ nl]"
  by code_simp

theorem search_prints_witness:
  "named (fs demo) \<and> fuel_ok 5 demo \<and> settled demo
   \<and> (\<exists>s'. searchFile 5 ''a.txt'' ''.'' demo = Some s'
        \<and> stdout s' = [''./sub/a.txt'' @ nl, ''./sub/deep/a.txt.bak'' @ nl]
        \<and> {''./sub/a.txt'' @ nl, ''./sub/deep/a.txt.bak'' @ nl} =
            {joined ''.'' ns @ nl | ns. reach (fs demo) [''home''] ns \<and> (\<exists>a b. last ns = a @ ''a.txt'' @ b)})"
proof -
  from search_demo_hyps have h: "named (fs demo)" "fuel_ok 5 demo" "settled demo"
    by simp_all
  have r0: "resolve demo ''.'' = Some [''home'']" using search_demo_out by simp
  have s0: "stdout demo = []" by (simp add: demo_def)
  from search_prints [OF h, of "''a.txt''" "''.''"] r0 s0 obtain s' out where
    r: "searchFile 5 ''a.txt'' ''.'' demo = Some s'"
    and c: "stdout s' = out"
      "set out = {joined ''.'' ns @ nl | ns. reach (fs demo) [''home''] ns \<and> (\<exists>a b. last ns = a @ ''a.txt'' @ b)}"
    by auto
  from search_demo_out r have e: "stdout s' = [''./sub/a.txt'' @ nl, ''./sub/deep/a.txt.bak'' @ nl]"
    by simp
  with c have "set [''./sub/a.txt'' @ nl, ''./sub/deep/a.txt.bak'' @ nl] =
      {joined ''.'' ns @ nl | ns. reach (fs demo) [''home''] ns \<and> (\<exists>a b. last ns = a @ ''a.txt'' @ b)}"
    by simp
  then have "{''./sub/a.txt'' @ nl, ''./sub/deep/a.txt.bak'' @ nl} =
      {joined ''.'' ns @ nl | ns. reach (fs demo) [''home''] ns \<and> (\<exists>a b. last ns = a @ ''a.txt'' @ b)}"
    by simp
  with h r e show ?thesis by blast
qed

end
